theory Spec2Isabelle
  imports Complex_Main "HOL-Library.Word"
begin

unbundle bit_operations_syntax

section \<open>Constants (core/consts.ts)\<close>

type_synonym byte = "8 word"

definition IRREDUCIBLE_POLY :: nat where
  "IRREDUCIBLE_POLY = 0x11B"

definition AES_CONSTANT :: byte where
  "AES_CONSTANT = 0x63"

definition INVERSE_TABLE :: "byte list" where
  "INVERSE_TABLE = [
   0, 1, 141, 246, 203, 82, 123, 209, 232, 79, 41, 192, 176, 225, 229, 199,
   116, 180, 170, 75, 153, 43, 96, 95, 88, 63, 253, 204, 255, 64, 238, 178,
   58, 110, 90, 241, 85, 77, 168, 201, 193, 10, 152, 21, 48, 68, 162, 194,
   44, 69, 146, 108, 243, 57, 102, 66, 242, 53, 32, 111, 119, 187, 89, 25,
   29, 254, 55, 103, 45, 49, 245, 105, 167, 100, 171, 19, 84, 37, 233, 9,
   237, 92, 5, 202, 76, 36, 135, 191, 24, 62, 34, 240, 81, 236, 97, 23,
   22, 94, 175, 211, 73, 166, 54, 67, 244, 71, 145, 223, 51, 147, 33, 59,
   121, 183, 151, 133, 16, 181, 186, 60, 182, 112, 208, 6, 161, 250, 129, 130,
   131, 126, 127, 128, 150, 115, 190, 86, 155, 158, 149, 217, 247, 2, 185, 164,
   222, 106, 50, 109, 216, 138, 132, 114, 42, 20, 159, 136, 249, 220, 137, 154,
   251, 124, 46, 195, 143, 184, 101, 72, 38, 200, 18, 74, 206, 231, 210, 98,
   12, 224, 31, 239, 17, 117, 120, 113, 165, 142, 118, 61, 189, 188, 134, 87,
   11, 40, 47, 163, 218, 212, 228, 15, 169, 39, 83, 4, 27, 252, 172, 230,
   122, 7, 174, 99, 197, 219, 226, 234, 148, 139, 196, 213, 157, 248, 144, 107,
   177, 13, 214, 235, 198, 14, 207, 173, 8, 78, 215, 227, 93, 80, 30, 179,
   91, 35, 56, 52, 104, 70, 3, 140, 221, 156, 125, 160, 205, 26, 65, 28]"

definition K44_MATRIX :: "byte list" where
  "K44_MATRIX = [0x57, 0xAB, 0xD5, 0xEA, 0x75, 0xBA, 0x5D, 0xAE]"

definition KAES_MATRIX :: "byte list" where
  "KAES_MATRIX = [0x8F, 0xC7, 0xE3, 0xF1, 0xF8, 0x7C, 0x3E, 0x1F]"

definition AES_SBOX :: "byte list" where
  "AES_SBOX = [
   99, 124, 119, 123, 242, 107, 111, 197, 48, 1, 103, 43, 254, 215, 171, 118,
   202, 130, 201, 125, 250, 89, 71, 240, 173, 212, 162, 175, 156, 164, 114, 192,
   183, 253, 147, 38, 54, 63, 247, 204, 52, 165, 229, 241, 113, 216, 49, 21,
   4, 199, 35, 195, 24, 150, 5, 154, 7, 18, 128, 226, 235, 39, 178, 117,
   9, 131, 44, 26, 27, 110, 90, 160, 82, 59, 214, 179, 41, 227, 47, 132,
   83, 209, 0, 237, 32, 252, 177, 91, 106, 203, 190, 57, 74, 76, 88, 207,
   208, 239, 170, 251, 67, 77, 51, 133, 69, 249, 2, 127, 80, 60, 159, 168,
   81, 163, 64, 143, 146, 157, 56, 245, 188, 182, 218, 33, 16, 255, 243, 210,
   205, 12, 19, 236, 95, 151, 68, 23, 196, 167, 126, 61, 100, 93, 25, 115,
   96, 129, 79, 220, 34, 42, 144, 136, 70, 238, 184, 20, 222, 94, 11, 219,
   224, 50, 58, 10, 73, 6, 36, 92, 194, 211, 172, 98, 145, 149, 228, 121,
   231, 200, 55, 109, 141, 213, 78, 169, 108, 86, 244, 234, 101, 122, 174, 8,
   186, 120, 37, 46, 28, 166, 180, 198, 232, 221, 116, 31, 75, 189, 139, 138,
   112, 62, 181, 102, 72, 3, 246, 14, 97, 53, 87, 185, 134, 193, 29, 158,
   225, 248, 152, 17, 105, 217, 142, 148, 155, 30, 135, 233, 206, 85, 40, 223,
   140, 161, 137, 13, 191, 230, 66, 104, 65, 153, 45, 15, 176, 84, 187, 22]"

definition RCON :: "byte list" where
  "RCON = [0x01, 0x02, 0x04, 0x08, 0x10, 0x20, 0x40, 0x80, 0x1B, 0x36]"

definition MIX_COLUMNS_MATRIX :: "byte list list" where
  "MIX_COLUMNS_MATRIX =
    [[0x02, 0x03, 0x01, 0x01],
     [0x01, 0x02, 0x03, 0x01],
     [0x01, 0x01, 0x02, 0x03],
     [0x03, 0x01, 0x01, 0x02]]"

definition INV_MIX_COLUMNS_MATRIX :: "byte list list" where
  "INV_MIX_COLUMNS_MATRIX =
    [[0x0E, 0x0B, 0x0D, 0x09],
     [0x09, 0x0E, 0x0B, 0x0D],
     [0x0D, 0x09, 0x0E, 0x0B],
     [0x0B, 0x0D, 0x09, 0x0E]]"

section \<open>Galois field arithmetic (core/galois.ts)\<close>

text \<open>
  One pass of the loop body of \<open>gfMultiply\<close> on the triple \<open>(p, tempA, tempB)\<close>.
  The operands are bytes; the mask \<open>& 0xFF\<close> of the source is kept.
\<close>

definition gfMultiply_step :: "byte \<times> byte \<times> byte \<Rightarrow> byte \<times> byte \<times> byte" where
  "gfMultiply_step s =
     (case s of (p, tempA, tempB) \<Rightarrow>
        let p' = (if tempB AND 1 \<noteq> 0 then p XOR tempA else p);
            hiBit = tempA AND 0x80;
            shifted = push_bit 1 tempA AND 0xFF;
            tempA' = (if hiBit \<noteq> 0
                      then shifted XOR word_of_nat (IRREDUCIBLE_POLY AND 0xFF)
                      else shifted)
        in (p', tempA', drop_bit 1 tempB))"

definition gfMultiply :: "byte \<Rightarrow> byte \<Rightarrow> byte" where
  "gfMultiply a b = fst (fold (\<lambda>i. gfMultiply_step) [0..<8] (0, a, b))"

definition gfInverse :: "byte \<Rightarrow> byte" where
  "gfInverse b = INVERSE_TABLE ! unat (b AND 0xFF)"

definition gfInverseComputed :: "byte \<Rightarrow> byte" where
  "gfInverseComputed b =
     (if b = 0 then 0
      else let result = fold (\<lambda>i r. gfMultiply (gfMultiply r r) b) [0..<6] b
           in gfMultiply result result)"

definition xtime :: "byte \<Rightarrow> byte" where
  "xtime b = (let result = push_bit 1 b AND 0xFF
              in if b AND 0x80 \<noteq> 0 then result XOR 0x1B else result)"

definition gfMultiplyConstant :: "byte \<Rightarrow> byte \<Rightarrow> byte" where
  "gfMultiplyConstant b multiplier =
     (if multiplier = 0x01 then b
      else if multiplier = 0x02 then xtime b
      else if multiplier = 0x03 then xtime b XOR b
      else if multiplier = 0x09 then xtime (xtime (xtime b)) XOR b
      else if multiplier = 0x0B then xtime (xtime (xtime b)) XOR xtime b XOR b
      else if multiplier = 0x0D then xtime (xtime (xtime b)) XOR xtime (xtime b) XOR b
      else if multiplier = 0x0E then xtime (xtime (xtime b)) XOR xtime (xtime b) XOR xtime b
      else gfMultiply b multiplier)"

text \<open>
  \<open>verifyInverseTable\<close> returns false at the first \<open>i\<close> in \<open>1..255\<close> whose product
  with its table entry is not 1, and true when the loop runs to its end.
\<close>

definition verifyInverseTable :: bool where
  "verifyInverseTable =
     list_all (\<lambda>i. gfMultiply (word_of_nat i) (INVERSE_TABLE ! i) = 1) [1..<256]"

section \<open>Affine transformation (core/affine.ts)\<close>

text \<open>
  The inner loop of \<open>applyAffine\<close>: the variable \<open>bit\<close> starts at 0 and is flipped for
  every column \<open>j\<close> where both the matrix bit and the input bit are 1.
\<close>

definition affineRowBit :: "byte \<Rightarrow> byte \<Rightarrow> byte" where
  "affineRowBit row byteVal =
     fold (\<lambda>j b.
             let matrixBit = drop_bit j row AND 1;
                 inputBit = drop_bit j byteVal AND 1
             in if matrixBit \<noteq> 0 \<and> inputBit \<noteq> 0 then b XOR 1 else b)
          [0..<8] 0"

definition affineProduct :: "byte \<Rightarrow> byte list \<Rightarrow> byte" where
  "affineProduct byteVal matrix =
     fold (\<lambda>i result.
             if affineRowBit (matrix ! i) byteVal \<noteq> 0 then result OR push_bit i 1 else result)
          [0..<8] 0"

definition applyAffine :: "byte \<Rightarrow> byte list \<Rightarrow> byte \<Rightarrow> byte" where
  "applyAffine byteVal matrix constant = affineProduct byteVal matrix XOR constant"

definition applyInverseAffine :: "byte \<Rightarrow> byte list \<Rightarrow> byte \<Rightarrow> byte" where
  "applyInverseAffine byteVal invMatrix constant = affineProduct (byteVal XOR constant) invMatrix"

section \<open>S-box generation (core/sbox.ts)\<close>

definition generateSBox :: "byte list \<Rightarrow> byte \<Rightarrow> byte list" where
  "generateSBox matrix constant =
     map (\<lambda>x. applyAffine (INVERSE_TABLE ! x) matrix constant) [0..<256]"

text \<open>
  \<open>generateInverseSBox\<close> starts from \<open>new Array(256)\<close>, whose slots are unset, and
  writes \<open>invSbox[sbox[i]] = i\<close> for \<open>i\<close> from 0 to 255; a later write to the same
  slot replaces the earlier one. An unset slot is \<open>None\<close>.
\<close>

definition generateInverseSBox :: "byte list \<Rightarrow> byte option list" where
  "generateInverseSBox sbox =
     fold (\<lambda>i invSbox. invSbox[unat (sbox ! i) := Some (word_of_nat i)])
          [0..<256] (replicate 256 None)"

section \<open>Matrix validity and inversion (core/affine.ts)\<close>

text \<open>
  The 2D arrays \<open>m\<close> and \<open>aug\<close> of the source hold one number, 0 or 1, per matrix
  bit: eight rows of 8 entries in \<open>isMatrixValid\<close>, eight rows of 16 entries (matrix and
  identity side by side) in \<open>invertMatrix\<close>.
\<close>

definition unpackMatrix :: "byte list \<Rightarrow> nat list list" where
  "unpackMatrix matrix =
     map (\<lambda>i. map (\<lambda>j. unat (drop_bit j (matrix ! i) AND 1)) [0..<8]) [0..<8]"

definition augmentMatrix :: "byte list \<Rightarrow> nat list list" where
  "augmentMatrix matrix =
     map (\<lambda>i. map (\<lambda>j. unat (drop_bit j (matrix ! i) AND 1)) [0..<8]
               @ map (\<lambda>j. if i = j then 1 else 0) [0..<8])
         [0..<8]"

text \<open>The first row at or below \<open>start\<close> whose entry in column \<open>col\<close> is 1.\<close>

definition findPivot :: "nat list list \<Rightarrow> nat \<Rightarrow> nat \<Rightarrow> nat option" where
  "findPivot m start col = find (\<lambda>row. m ! row ! col = 1) [start..<8]"

text \<open>\<open>[m[a], m[b]] = [m[b], m[a]]\<close>\<close>

definition swapRows :: "nat list list \<Rightarrow> nat \<Rightarrow> nat \<Rightarrow> nat list list" where
  "swapRows m a b = m[a := m ! b, b := m ! a]"

text \<open>
  The elimination loop: every row other than the pivot row whose entry in column \<open>col\<close>
  is 1 gets the pivot row added entry by entry, over the \<open>width\<close> columns of the array.
\<close>

definition eliminate :: "nat \<Rightarrow> nat list list \<Rightarrow> nat \<Rightarrow> nat \<Rightarrow> nat list list" where
  "eliminate width m pivot col =
     fold (\<lambda>row m. if row \<noteq> pivot \<and> m ! row ! col = 1
                    then m[row := map (\<lambda>c. m ! row ! c XOR m ! pivot ! c) [0..<width]]
                    else m)
          [0..<8] m"

definition isMatrixValid :: "byte list \<Rightarrow> bool" where
  "isMatrixValid matrix =
     (let (m, rank) =
            fold (\<lambda>col (m, rank).
                    case findPivot m rank col of
                      None \<Rightarrow> (m, rank)
                    | Some pivotRow \<Rightarrow> (eliminate 8 (swapRows m rank pivotRow) rank col, rank + 1))
                 [0..<8] (unpackMatrix matrix, 0)
      in rank = 8)"

text \<open>
  The column loop of \<open>invertMatrix\<close> returns \<open>null\<close> (here \<open>None\<close>) at the first column
  without a pivot.
\<close>

primrec invertColumns :: "nat list \<Rightarrow> nat list list \<Rightarrow> nat list list option" where
  "invertColumns [] aug = Some aug"
| "invertColumns (col # cols) aug =
     (case findPivot aug col col of
        None \<Rightarrow> None
      | Some pivotRow \<Rightarrow> invertColumns cols (eliminate 16 (swapRows aug col pivotRow) col col))"

definition packRow :: "nat list \<Rightarrow> nat \<Rightarrow> byte" where
  "packRow row offset =
     fold (\<lambda>j b. if row ! (offset + j) \<noteq> 0 then b OR push_bit j 1 else b) [0..<8] 0"

definition invertMatrix :: "byte list \<Rightarrow> byte list option" where
  "invertMatrix matrix =
     (case invertColumns [0..<8] (augmentMatrix matrix) of
        None \<Rightarrow> None
      | Some aug \<Rightarrow> Some (map (\<lambda>i. packRow (aug ! i) 8) [0..<8]))"

section \<open>AES-128 with a custom S-box (core/aes.ts)\<close>

text \<open>
  A \<open>State\<close> is the 4x4 grid \<open>number[][]\<close> of the source: four rows of four bytes.
  The loops of the source run over the fixed index ranges \<open>0..3\<close> and store every cell
  of the result once; below, the result is the grid whose cell \<open>(i, j)\<close> holds what the
  loop body stores into \<open>result[i][j]\<close>.
\<close>

type_synonym State = "byte list list"

text \<open>
  \<open>bytesToState\<close> stores \<open>bytes[i]\<close> into \<open>state[i % 4][i / 4]\<close> for \<open>i\<close> from 0 to
  15, so that cell \<open>(r, c)\<close> receives \<open>bytes[r + 4 * c]\<close>.
\<close>

definition bytesToState :: "byte list \<Rightarrow> State" where
  "bytesToState bytes = map (\<lambda>r. map (\<lambda>c. bytes ! (r + 4 * c)) [0..<4]) [0..<4]"

definition stateToBytes :: "State \<Rightarrow> byte list" where
  "stateToBytes st = map (\<lambda>i. st ! (i mod 4) ! (i div 4)) [0..<16]"

definition cloneState :: "State \<Rightarrow> State" where
  "cloneState st = map (\<lambda>row. row) st"

definition subBytes :: "State \<Rightarrow> byte list \<Rightarrow> State" where
  "subBytes st sbox = map (\<lambda>i. map (\<lambda>j. sbox ! unat (st ! i ! j)) [0..<4]) [0..<4]"

definition invSubBytes :: "State \<Rightarrow> byte list \<Rightarrow> State" where
  "invSubBytes st invSbox = subBytes st invSbox"

text \<open>
  \<open>shiftRows\<close> leaves row 0 of the copy as it is and, for the rows 1 to 3, stores
  \<open>temp[(col + row) % 4]\<close> into column \<open>col\<close>, \<open>temp\<close> being the row before the shift.
\<close>

definition shiftRows :: "State \<Rightarrow> State" where
  "shiftRows st =
     map (\<lambda>row. if row = 0 then st ! 0
                 else map (\<lambda>col. st ! row ! ((col + row) mod 4)) [0..<4]) [0..<4]"

definition invShiftRows :: "State \<Rightarrow> State" where
  "invShiftRows st =
     map (\<lambda>row. if row = 0 then st ! 0
                 else map (\<lambda>col. st ! row ! ((col + 4 - row) mod 4)) [0..<4]) [0..<4]"

definition mixWith :: "byte list list \<Rightarrow> State \<Rightarrow> State" where
  "mixWith matrix st =
     map (\<lambda>row. map (\<lambda>col.
            fold (\<lambda>k sum. sum XOR gfMultiplyConstant (st ! k ! col) (matrix ! row ! k)) [0..<4] 0)
          [0..<4]) [0..<4]"

definition mixColumns :: "State \<Rightarrow> State" where
  "mixColumns st = mixWith MIX_COLUMNS_MATRIX st"

definition invMixColumns :: "State \<Rightarrow> State" where
  "invMixColumns st = mixWith INV_MIX_COLUMNS_MATRIX st"

definition addRoundKey :: "State \<Rightarrow> State \<Rightarrow> State" where
  "addRoundKey st roundKey =
     map (\<lambda>i. map (\<lambda>j. st ! i ! j XOR roundKey ! i ! j) [0..<4]) [0..<4]"

text \<open>
  Key expansion: \<open>Nk = 4\<close>, \<open>Nr = 10\<close>, \<open>Nb = 4\<close>. The list \<open>W\<close> grows by one
  word per pass of the second loop, for \<open>i\<close> from 4 to 43.
\<close>

definition nextWord :: "byte list \<Rightarrow> nat \<Rightarrow> byte list list \<Rightarrow> byte list" where
  "nextWord sbox i W =
     (let temp = W ! (i - 1);
          temp' = (if i mod 4 = 0
                   then (let rot = [temp ! 1, temp ! 2, temp ! 3, temp ! 0];
                             sub = map (\<lambda>b. sbox ! unat b) rot
                         in sub[0 := sub ! 0 XOR RCON ! (i div 4 - 1)])
                   else temp)
      in map (\<lambda>(j, b). b XOR temp' ! j) (enumerate 0 (W ! (i - 4))))"

definition expandWords :: "byte list \<Rightarrow> byte list \<Rightarrow> byte list list" where
  "expandWords key sbox =
     fold (\<lambda>i W. W @ [nextWord sbox i W]) [4..<44]
          (map (\<lambda>i. [key ! (4 * i), key ! (4 * i + 1), key ! (4 * i + 2), key ! (4 * i + 3)]) [0..<4])"

definition keyExpansion :: "byte list \<Rightarrow> byte list \<Rightarrow> State list" where
  "keyExpansion key sbox =
     (let W = expandWords key sbox
      in map (\<lambda>r. map (\<lambda>row. map (\<lambda>col. W ! (r * 4 + col) ! row) [0..<4]) [0..<4])
             [0..<11])"

definition encryptRound :: "byte list \<Rightarrow> State list \<Rightarrow> nat \<Rightarrow> State \<Rightarrow> State" where
  "encryptRound sbox roundKeys r st =
     addRoundKey (mixColumns (shiftRows (subBytes st sbox))) (roundKeys ! r)"

definition encryptBlock :: "byte list \<Rightarrow> byte list \<Rightarrow> byte list \<Rightarrow> byte list" where
  "encryptBlock block key sbox =
     (let roundKeys = keyExpansion key sbox;
          st0 = addRoundKey (bytesToState block) (roundKeys ! 0);
          st9 = fold (encryptRound sbox roundKeys) [1..<10] st0;
          st10 = addRoundKey (shiftRows (subBytes st9 sbox)) (roundKeys ! 10)
      in stateToBytes st10)"

text \<open>
  In \<open>decryptBlock\<close> the inverse table is read by \<open>invSubBytes\<close>; a slot that
  \<open>generateInverseSBox\<close> left unset reads as \<open>undefined\<close>, which the \<open>^=\<close> of the
  \<open>addRoundKey\<close> that follows every \<open>invSubBytes\<close> takes as 0.
\<close>

definition slotValue :: "byte option \<Rightarrow> byte" where
  "slotValue v = (case v of None \<Rightarrow> 0 | Some b \<Rightarrow> b)"

definition decryptRound :: "byte list \<Rightarrow> State list \<Rightarrow> nat \<Rightarrow> State \<Rightarrow> State" where
  "decryptRound invSbox roundKeys r st =
     invSubBytes (invShiftRows (invMixColumns (addRoundKey st (roundKeys ! r)))) invSbox"

definition decryptBlock :: "byte list \<Rightarrow> byte list \<Rightarrow> byte list \<Rightarrow> byte list" where
  "decryptBlock block key sbox =
     (let invSbox = map slotValue (generateInverseSBox sbox);
          roundKeys = keyExpansion key sbox;
          st10 = invSubBytes (invShiftRows (addRoundKey (bytesToState block) (roundKeys ! 10))) invSbox;
          st1 = fold (decryptRound invSbox roundKeys) (rev [1..<10]) st10
      in stateToBytes (addRoundKey st1 (roundKeys ! 0)))"

datatype Operation = Initial | SubBytes | ShiftRows | MixColumns | AddRoundKey

record EncryptionStep =
  round_no :: nat
  operation :: Operation
  state :: State
  roundKey :: "State option"

record StepsResult =
  ciphertext :: "byte list"
  steps :: "EncryptionStep list"
  roundKeys :: "State list"

definition stepsRound ::
  "byte list \<Rightarrow> State list \<Rightarrow> nat \<Rightarrow> State \<times> EncryptionStep list \<Rightarrow> State \<times> EncryptionStep list" where
  "stepsRound sbox rks r acc =
     (case acc of (st, trace) \<Rightarrow>
        let st1 = subBytes st sbox;
            trace1 = trace @ [\<lparr>round_no = r, operation = SubBytes, state = cloneState st1, roundKey = None\<rparr>];
            st2 = shiftRows st1;
            trace2 = trace1 @ [\<lparr>round_no = r, operation = ShiftRows, state = cloneState st2, roundKey = None\<rparr>];
            st3 = mixColumns st2;
            trace3 = trace2 @ [\<lparr>round_no = r, operation = MixColumns, state = cloneState st3, roundKey = None\<rparr>];
            st4 = addRoundKey st3 (rks ! r);
            trace4 = trace3 @ [\<lparr>round_no = r, operation = AddRoundKey, state = cloneState st4,
                            roundKey = Some (rks ! r)\<rparr>]
        in (st4, trace4))"

definition encryptBlockWithSteps :: "byte list \<Rightarrow> byte list \<Rightarrow> byte list \<Rightarrow> StepsResult" where
  "encryptBlockWithSteps block key sbox =
     (let rks = keyExpansion key sbox;
          st = bytesToState block;
          trace0 = [\<lparr>round_no = 0, operation = Initial, state = cloneState st, roundKey = None\<rparr>];
          st0 = addRoundKey st (rks ! 0);
          trace1 = trace0 @ [\<lparr>round_no = 0, operation = AddRoundKey, state = cloneState st0,
                          roundKey = Some (rks ! 0)\<rparr>];
          (st9, trace9) = fold (stepsRound sbox rks) [1..<10] (st0, trace1);
          sa = subBytes st9 sbox;
          tracea = trace9 @ [\<lparr>round_no = 10, operation = SubBytes, state = cloneState sa, roundKey = None\<rparr>];
          sb = shiftRows sa;
          traceb = tracea @ [\<lparr>round_no = 10, operation = ShiftRows, state = cloneState sb, roundKey = None\<rparr>];
          sc = addRoundKey sb (rks ! 10);
          tracec = traceb @ [\<lparr>round_no = 10, operation = AddRoundKey, state = cloneState sc,
                          roundKey = Some (rks ! 10)\<rparr>]
      in \<lparr>ciphertext = stateToBytes sc, steps = tracec, roundKeys = rks\<rparr>)"

subsection \<open>Padding and the ECB loops\<close>

datatype padding_error =
    EmptyData
  | PadLengthOutOfRange byte
  | PadLengthExceedsData byte nat
  | PadByteMismatch nat byte byte

datatype error = InvalidPadding padding_error | RangeError

definition pkcs7Pad :: "byte list \<Rightarrow> byte list" where
  "pkcs7Pad data =
     (let blockSize = 16;
          padLen = blockSize - (length data mod blockSize)
      in data @ replicate padLen (word_of_nat padLen))"

definition pkcs7Unpad :: "byte list \<Rightarrow> error + byte list" where
  "pkcs7Unpad data =
     (if length data = 0 then Inl (InvalidPadding EmptyData)
      else let padLen = data ! (length data - 1)
           in if padLen > 16 \<or> padLen = 0 then Inl (InvalidPadding (PadLengthOutOfRange padLen))
              else if unat padLen > length data
                   then Inl (InvalidPadding (PadLengthExceedsData padLen (length data)))
                   else (case find (\<lambda>i. data ! i \<noteq> padLen) [length data - unat padLen..<length data] of
                           Some i \<Rightarrow> Inl (InvalidPadding (PadByteMismatch i padLen (data ! i)))
                         | None \<Rightarrow> Inr (take (length data - unat padLen) data)))"

text \<open>
  The block loop of \<open>encrypt\<close> and \<open>decrypt\<close>: \<open>data.slice(i, i + 16)\<close> is cut,
  transformed, and written back with \<open>result.set\<close>, which raises a \<open>RangeError\<close>
  when the written block does not fit into \<open>result\<close>.
\<close>

function ecbBlocks ::
  "(byte list \<Rightarrow> byte list) \<Rightarrow> byte list \<Rightarrow> nat \<Rightarrow> byte list \<Rightarrow> error + byte list" where
  "ecbBlocks f data i result =
     (if i < length data
      then (let block = take 16 (drop i data);
                out = f block
            in if i + length out > length result then Inl RangeError
               else ecbBlocks f data (i + 16) (take i result @ out @ drop (i + length out) result))
      else Inr result)"
  by pat_completeness auto
termination
  by (relation "measure (\<lambda>(f, data, i, result). length data - i)") auto

declare ecbBlocks.simps [simp del]

text \<open>
  \<open>keyStr.padEnd(16, '\0').slice(0, 16)\<close>: the key string is filled with NUL
  characters up to 16 characters and cut to its first 16.
\<close>

definition canonicalKey :: "string \<Rightarrow> string" where
  "canonicalKey keyStr = take 16 (keyStr @ replicate (16 - length keyStr) (CHR 0x00))"

text \<open>
  \<open>TextEncoder.encode\<close> and \<open>TextDecoder.decode\<close> belong to the platform, not to the
  repository; \<open>encrypt\<close> and \<open>decrypt\<close> take them as the parameters \<open>encode\<close> and
  \<open>decode\<close>.
\<close>

definition encrypt ::
  "(string \<Rightarrow> byte list) \<Rightarrow> string \<Rightarrow> string \<Rightarrow> byte list \<Rightarrow> error + byte list" where
  "encrypt encode plaintext keyStr sbox =
     (let data = pkcs7Pad (encode plaintext);
          key = encode (canonicalKey keyStr)
      in ecbBlocks (\<lambda>block. encryptBlock block key sbox) data 0 (replicate (length data) 0))"

definition decrypt ::
  "(string \<Rightarrow> byte list) \<Rightarrow> (byte list \<Rightarrow> string) \<Rightarrow> byte list \<Rightarrow> string \<Rightarrow> byte list
     \<Rightarrow> error + string" where
  "decrypt encode decode cipherBytes keyStr sbox =
     (let key = encode (canonicalKey keyStr)
      in case ecbBlocks (\<lambda>block. decryptBlock block key sbox) cipherBytes 0
                (replicate (length cipherBytes) 0) of
           Inl e \<Rightarrow> Inl e
         | Inr result \<Rightarrow>
             (case pkcs7Unpad result of
                Inl e \<Rightarrow> Inl e
              | Inr plain \<Rightarrow> Inr (decode plain)))"

section \<open>Metrics (core/metrics.ts)\<close>

text \<open>
  \<open>hammingWeight\<close>: the loop adds the low bit to \<open>count\<close> and shifts \<open>num\<close> right
  until \<open>num\<close> is 0.
\<close>

function hammingWeightLoop :: "nat \<Rightarrow> nat \<Rightarrow> nat" where
  "hammingWeightLoop count num =
     (if num \<noteq> 0 then hammingWeightLoop (count + (num AND 1)) (drop_bit 1 num) else count)"
  by pat_completeness auto
termination
  by (relation "measure (\<lambda>(count, num). num)") (auto simp add: drop_bit_eq_div)

declare hammingWeightLoop.simps [simp del]

definition hammingWeight :: "nat \<Rightarrow> nat" where
  "hammingWeight n = hammingWeightLoop 0 n"

text \<open>
  The counts below are whole numbers up to 256 and the quotients are multiples of
  \<open>1/256\<close> (or of \<open>1/16384\<close>), which the floating-point numbers of the source hold
  exactly; they are modelled as reals.
\<close>

definition sacFlips :: "byte list \<Rightarrow> nat \<Rightarrow> nat \<Rightarrow> nat" where
  "sacFlips sbox inputBit outputBit =
     fold (\<lambda>x flips.
             let xFlipped = x XOR push_bit inputBit 1;
                 outOriginal = drop_bit outputBit (sbox ! x) AND 1;
                 outFlipped = drop_bit outputBit (sbox ! xFlipped) AND 1
             in if outOriginal \<noteq> outFlipped then flips + 1 else flips)
          [0..<256] 0"

definition calculateSAC :: "byte list \<Rightarrow> real" where
  "calculateSAC sbox =
     (let (totalFlips, totalTests) =
            fold (\<lambda>inputBit acc.
                    fold (\<lambda>outputBit (totalFlips, totalTests).
                            (totalFlips + sacFlips sbox inputBit outputBit, totalTests + 256))
                         [0..<8] acc)
                 [0..<8] (0, 0)
      in real totalFlips / real totalTests)"

definition calculateSACMatrix :: "byte list \<Rightarrow> real list list" where
  "calculateSACMatrix sbox =
     map (\<lambda>outputBit. map (\<lambda>inputBit. real (sacFlips sbox inputBit outputBit) / 256) [0..<8])
         [0..<8]"

definition lapCount :: "byte list \<Rightarrow> nat \<Rightarrow> nat \<Rightarrow> nat" where
  "lapCount sbox inputMask outputMask =
     fold (\<lambda>x count.
             let inputParity = hammingWeight (x AND inputMask) AND 1;
                 outputParity = hammingWeight (unat (sbox ! x) AND outputMask) AND 1
             in if inputParity = outputParity then count + 1 else count)
          [0..<256] 0"

definition lapBias :: "byte list \<Rightarrow> nat \<Rightarrow> nat \<Rightarrow> real" where
  "lapBias sbox inputMask outputMask = \<bar>real (lapCount sbox inputMask outputMask) / 256 - 0.5\<bar>"

definition calculateLAP :: "byte list \<Rightarrow> real" where
  "calculateLAP sbox =
     fold (\<lambda>inputMask maxBias.
             fold (\<lambda>outputMask maxBias.
                     let bias = lapBias sbox inputMask outputMask
                     in if bias > maxBias then bias else maxBias)
                  [1..<256] maxBias)
          [0..<256] 0"

section \<open>Auxiliary definitions for the proofs\<close>

definition all_bytes :: "byte list" where
  "all_bytes = map word_of_nat [0..<256]"

definition sel :: "bool \<Rightarrow> byte \<Rightarrow> byte" where
  "sel c v = (if c then v else 0)"

definition gfSquare :: "byte \<Rightarrow> byte" where
  "gfSquare r = gfMultiply r r"

definition gfStep :: "byte \<Rightarrow> byte \<Rightarrow> byte" where
  "gfStep r b = gfMultiply (gfSquare r) b"


text \<open>Exclusive-or of a family of truth values along a list of indices.\<close>

definition xsum :: "(nat \<Rightarrow> bool) \<Rightarrow> nat list \<Rightarrow> bool" where
  "xsum f js = fold (\<lambda>j q. q \<noteq> f j) js False"

text \<open>The GF(2) inner product of two bytes.\<close>

definition dot :: "byte \<Rightarrow> byte \<Rightarrow> bool" where
  "dot a b = xsum (\<lambda>j. bit a j \<and> bit b j) [0..<8]"

definition parity8 :: "byte \<Rightarrow> bool" where
  "parity8 w =
     (bit w 0 \<noteq> (bit w 1 \<noteq> (bit w 2 \<noteq> (bit w 3 \<noteq>
       (bit w 4 \<noteq> (bit w 5 \<noteq> (bit w 6 \<noteq> bit w 7)))))))"

text \<open>
  The four conditions under which unpadding is refused: empty data, a last byte outside
  1..16, a last byte larger than the length, or a trailing byte among the last
  \<open>padLength\<close> ones that differs from \<open>padLength\<close>.
\<close>

definition paddingViolation :: "byte list \<Rightarrow> bool" where
  "paddingViolation data \<longleftrightarrow>
     data = [] \<or> last data < 1 \<or> 16 < last data \<or> length data < unat (last data)
     \<or> (\<exists>i < length data. length data - unat (last data) \<le> i \<and> data ! i \<noteq> last data)"

text \<open>Well-formed states: four rows of four bytes.\<close>

definition wf_state :: "State \<Rightarrow> bool" where
  "wf_state st \<longleftrightarrow> length st = 4 \<and> list_all (\<lambda>row. length row = 4) st"

text \<open>
  The order of a trace: round number and operation of each entry, as the step-trace
  variant is described; and the replay of one recorded operation on a state.
\<close>

definition expectedOrder :: "(nat \<times> Operation) list" where
  "expectedOrder =
     [(0, Initial), (0, AddRoundKey)]
     @ concat (map (\<lambda>r. [(r, SubBytes), (r, ShiftRows), (r, MixColumns), (r, AddRoundKey)]) [1..<10])
     @ [(10, SubBytes), (10, ShiftRows), (10, AddRoundKey)]"

definition applyOperation :: "Operation \<Rightarrow> byte list \<Rightarrow> State \<Rightarrow> State \<Rightarrow> State" where
  "applyOperation op sbox rk st =
     (case op of
        Initial \<Rightarrow> st
      | SubBytes \<Rightarrow> subBytes st sbox
      | ShiftRows \<Rightarrow> shiftRows st
      | MixColumns \<Rightarrow> mixColumns st
      | AddRoundKey \<Rightarrow> addRoundKey st rk)"

definition stepOf :: "nat \<Rightarrow> Operation \<Rightarrow> State \<Rightarrow> State option \<Rightarrow> EncryptionStep" where
  "stepOf r op st rk = \<lparr>round_no = r, operation = op, state = st, roundKey = rk\<rparr>"

text \<open>Adjacent entries replay: each state is its operation applied to the state before.\<close>

fun replays :: "byte list \<Rightarrow> State list \<Rightarrow> State \<Rightarrow> EncryptionStep list \<Rightarrow> bool" where
  "replays sbox rks prev [] = True"
| "replays sbox rks prev (s # ss) =
     (state s = applyOperation (operation s) sbox (rks ! round_no s) prev
      \<and> replays sbox rks (state s) ss)"

definition roundOrder :: "nat \<Rightarrow> (nat \<times> Operation) list" where
  "roundOrder r = [(r, SubBytes), (r, ShiftRows), (r, MixColumns), (r, AddRoundKey)]"

text \<open>
  The linear approximation probability as it is described: the largest bias over the
  255 nonzero input masks and the 255 nonzero output masks.
\<close>

definition lapOverNonzeroMasks :: "byte list \<Rightarrow> real" where
  "lapOverNonzeroMasks sbox =
     Max (set (map (\<lambda>(inputMask, outputMask). lapBias sbox inputMask outputMask)
                   (List.product [1..<256] [1..<256])))"

definition zeroBox :: "byte list" where
  "zeroBox = replicate 256 0"

text \<open>Rows of 0/1 entries of a given width, and arrays of eight such rows.\<close>

definition bitRow :: "nat \<Rightarrow> nat list \<Rightarrow> bool" where
  "bitRow w r \<longleftrightarrow> length r = w \<and> list_all (\<lambda>x. x \<le> 1) r"

definition bitGrid :: "nat \<Rightarrow> nat list list \<Rightarrow> bool" where
  "bitGrid w m \<longleftrightarrow> length m = 8 \<and> list_all (bitRow w) m"

text \<open>One pass of the column loop once the pivot row is known.\<close>

definition gaussStep :: "nat \<Rightarrow> nat list list \<Rightarrow> nat \<Rightarrow> nat \<Rightarrow> nat \<Rightarrow> nat list list" where
  "gaussStep w m k col p = eliminate w (swapRows m k p) k col"

text \<open>
  The same elimination on packed rows: \<open>half offset m\<close> packs eight entries of every row
  of \<open>m\<close> into a byte, the left half of the array at offset 0 and the right half at
  offset 8.
\<close>

definition half :: "nat \<Rightarrow> nat list list \<Rightarrow> byte list" where
  "half offset m = map (\<lambda>r. packRow r offset) m"

definition identityRows :: "byte list" where
  "identityRows = map (\<lambda>i. 2 ^ i) [0..<8]"

definition wfind :: "byte list \<Rightarrow> nat \<Rightarrow> nat \<Rightarrow> nat option" where
  "wfind L start col = find (\<lambda>row. bit (L ! row) col) [start..<8]"

definition wswap :: "byte list \<Rightarrow> nat \<Rightarrow> nat \<Rightarrow> byte list" where
  "wswap xs a b = xs[a := xs ! b, b := xs ! a]"

definition welim :: "byte list \<Rightarrow> byte list \<Rightarrow> nat \<Rightarrow> nat \<Rightarrow> byte list" where
  "welim ctl xs k col =
     map (\<lambda>i. if i \<noteq> k \<and> bit (ctl ! i) col then xs ! i XOR xs ! k else xs ! i) [0..<8]"

definition wstep :: "byte list \<Rightarrow> byte list \<Rightarrow> nat \<Rightarrow> nat \<Rightarrow> nat \<Rightarrow> byte list" where
  "wstep L X k col p = welim (wswap L k p) (wswap X k p) k col"

primrec winvert :: "nat list \<Rightarrow> byte list \<times> byte list \<Rightarrow> (byte list \<times> byte list) option" where
  "winvert [] s = Some s"
| "winvert (col # cols) s =
     (case wfind (fst s) col col of
        None \<Rightarrow> None
      | Some p \<Rightarrow> winvert cols (wstep (fst s) (fst s) col col p, wstep (fst s) (snd s) col col p))"

definition wrankStep :: "nat \<Rightarrow> byte list \<times> nat \<Rightarrow> byte list \<times> nat" where
  "wrankStep col s =
     (case wfind (fst s) (snd s) col of
        None \<Rightarrow> s
      | Some p \<Rightarrow> (wstep (fst s) (fst s) (snd s) col p, snd s + 1))"

text \<open>Row vector times matrix over GF(2), and the span of a set of rows.\<close>

definition vecmat :: "byte \<Rightarrow> byte list \<Rightarrow> byte" where
  "vecmat r A = fold (\<lambda>j acc. if bit r j then acc XOR A ! j else acc) [0..<8] 0"

inductive_set span :: "byte set \<Rightarrow> byte set" for S :: "byte set" where
  zero: "0 \<in> span S"
| add: "v \<in> span S \<Longrightarrow> r \<in> S \<Longrightarrow> v XOR r \<in> span S"

definition elimRow :: "nat \<Rightarrow> nat \<Rightarrow> nat \<Rightarrow> nat \<Rightarrow> nat list list \<Rightarrow> nat list list" where
  "elimRow w p col row m =
     (if row \<noteq> p \<and> m ! row ! col = 1
      then m[row := map (\<lambda>c. m ! row ! c XOR m ! p ! c) [0..<w]] else m)"

definition elimResult :: "nat \<Rightarrow> nat \<Rightarrow> nat \<Rightarrow> nat list list \<Rightarrow> nat \<Rightarrow> nat list" where
  "elimResult w p col m i =
     (if i \<noteq> p \<and> m ! i ! col = 1 then map (\<lambda>c. m ! i ! c XOR m ! p ! c) [0..<w] else m ! i)"

definition vecsum :: "byte \<Rightarrow> byte list \<Rightarrow> nat list \<Rightarrow> byte" where
  "vecsum r A js = fold (\<lambda>j acc. if bit r j then acc XOR A ! j else acc) js 0"

text \<open>
  Invariants of the elimination on packed rows: the left rows are the right rows times
  the input matrix; the columns already treated are unit columns; the unit vectors stay
  in the span of the rows.
\<close>

definition rowsProduct :: "byte list \<Rightarrow> byte list \<Rightarrow> byte list \<Rightarrow> bool" where
  "rowsProduct A L R \<longleftrightarrow> (\<forall>i < 8. L ! i = vecmat (R ! i) A)"

definition unitColumns :: "nat \<Rightarrow> byte list \<Rightarrow> bool" where
  "unitColumns c L \<longleftrightarrow> (\<forall>i < 8. \<forall>j < c. bit (L ! i) j \<longleftrightarrow> i = j)"

definition spansUnits :: "byte list \<Rightarrow> bool" where
  "spansUnits X \<longleftrightarrow> (\<forall>d < 8. 2 ^ d \<in> span (set X))"

definition swapIndex :: "nat \<Rightarrow> nat \<Rightarrow> nat \<Rightarrow> nat" where
  "swapIndex k p i = (if i = p then k else if i = k then p else i)"

section \<open>Enumerating the bytes\<close>

lemma sel_simps: "sel True v = v" "sel False v = 0"
  by (simp_all add: sel_def)

lemma length_all_bytes: "length all_bytes = 256"
  by (simp add: all_bytes_def)

lemma all_bytes_nth: "i < 256 \<Longrightarrow> all_bytes ! i = word_of_nat i"
  by (simp add: all_bytes_def)

lemma unat_byte_less: "unat (x :: byte) < 256"
  using unsigned_less [of x] by simp

lemma all_bytes_unat: "all_bytes ! unat (x :: byte) = x"
  by (simp add: all_bytes_nth unat_byte_less)

lemma length_INVERSE_TABLE: "length INVERSE_TABLE = 256"
  by (simp add: INVERSE_TABLE_def)

text \<open>A property checked along the enumeration holds of every byte.\<close>

lemma bytes_table_all:
  assumes "list_all2 P all_bytes T"
  shows "P x (T ! unat x)"
proof -
  have "P (all_bytes ! unat x) (T ! unat x)"
    using assms by (simp add: list_all2_conv_all_nth length_all_bytes unat_byte_less)
  then show ?thesis by (simp add: all_bytes_unat)
qed

section \<open>Evaluating the field operations\<close>

lemma xtime_table:
  "xtime 0 = 0" "xtime 1 = 2" "xtime 2 = 4" "xtime 3 = 6"
  "xtime 4 = 8" "xtime 5 = 10" "xtime 6 = 12" "xtime 7 = 14"
  "xtime 8 = 16" "xtime 9 = 18" "xtime 10 = 20" "xtime 11 = 22"
  "xtime 12 = 24" "xtime 13 = 26" "xtime 14 = 28" "xtime 15 = 30"
  "xtime 16 = 32" "xtime 17 = 34" "xtime 18 = 36" "xtime 19 = 38"
  "xtime 20 = 40" "xtime 21 = 42" "xtime 22 = 44" "xtime 23 = 46"
  "xtime 24 = 48" "xtime 25 = 50" "xtime 26 = 52" "xtime 27 = 54"
  "xtime 28 = 56" "xtime 29 = 58" "xtime 30 = 60" "xtime 31 = 62"
  "xtime 32 = 64" "xtime 33 = 66" "xtime 34 = 68" "xtime 35 = 70"
  "xtime 36 = 72" "xtime 37 = 74" "xtime 38 = 76" "xtime 39 = 78"
  "xtime 40 = 80" "xtime 41 = 82" "xtime 42 = 84" "xtime 43 = 86"
  "xtime 44 = 88" "xtime 45 = 90" "xtime 46 = 92" "xtime 47 = 94"
  "xtime 48 = 96" "xtime 49 = 98" "xtime 50 = 100" "xtime 51 = 102"
  "xtime 52 = 104" "xtime 53 = 106" "xtime 54 = 108" "xtime 55 = 110"
  "xtime 56 = 112" "xtime 57 = 114" "xtime 58 = 116" "xtime 59 = 118"
  "xtime 60 = 120" "xtime 61 = 122" "xtime 62 = 124" "xtime 63 = 126"
  "xtime 64 = 128" "xtime 65 = 130" "xtime 66 = 132" "xtime 67 = 134"
  "xtime 68 = 136" "xtime 69 = 138" "xtime 70 = 140" "xtime 71 = 142"
  "xtime 72 = 144" "xtime 73 = 146" "xtime 74 = 148" "xtime 75 = 150"
  "xtime 76 = 152" "xtime 77 = 154" "xtime 78 = 156" "xtime 79 = 158"
  "xtime 80 = 160" "xtime 81 = 162" "xtime 82 = 164" "xtime 83 = 166"
  "xtime 84 = 168" "xtime 85 = 170" "xtime 86 = 172" "xtime 87 = 174"
  "xtime 88 = 176" "xtime 89 = 178" "xtime 90 = 180" "xtime 91 = 182"
  "xtime 92 = 184" "xtime 93 = 186" "xtime 94 = 188" "xtime 95 = 190"
  "xtime 96 = 192" "xtime 97 = 194" "xtime 98 = 196" "xtime 99 = 198"
  "xtime 100 = 200" "xtime 101 = 202" "xtime 102 = 204" "xtime 103 = 206"
  "xtime 104 = 208" "xtime 105 = 210" "xtime 106 = 212" "xtime 107 = 214"
  "xtime 108 = 216" "xtime 109 = 218" "xtime 110 = 220" "xtime 111 = 222"
  "xtime 112 = 224" "xtime 113 = 226" "xtime 114 = 228" "xtime 115 = 230"
  "xtime 116 = 232" "xtime 117 = 234" "xtime 118 = 236" "xtime 119 = 238"
  "xtime 120 = 240" "xtime 121 = 242" "xtime 122 = 244" "xtime 123 = 246"
  "xtime 124 = 248" "xtime 125 = 250" "xtime 126 = 252" "xtime 127 = 254"
  "xtime 128 = 27" "xtime 129 = 25" "xtime 130 = 31" "xtime 131 = 29"
  "xtime 132 = 19" "xtime 133 = 17" "xtime 134 = 23" "xtime 135 = 21"
  "xtime 136 = 11" "xtime 137 = 9" "xtime 138 = 15" "xtime 139 = 13"
  "xtime 140 = 3" "xtime 141 = 1" "xtime 142 = 7" "xtime 143 = 5"
  "xtime 144 = 59" "xtime 145 = 57" "xtime 146 = 63" "xtime 147 = 61"
  "xtime 148 = 51" "xtime 149 = 49" "xtime 150 = 55" "xtime 151 = 53"
  "xtime 152 = 43" "xtime 153 = 41" "xtime 154 = 47" "xtime 155 = 45"
  "xtime 156 = 35" "xtime 157 = 33" "xtime 158 = 39" "xtime 159 = 37"
  "xtime 160 = 91" "xtime 161 = 89" "xtime 162 = 95" "xtime 163 = 93"
  "xtime 164 = 83" "xtime 165 = 81" "xtime 166 = 87" "xtime 167 = 85"
  "xtime 168 = 75" "xtime 169 = 73" "xtime 170 = 79" "xtime 171 = 77"
  "xtime 172 = 67" "xtime 173 = 65" "xtime 174 = 71" "xtime 175 = 69"
  "xtime 176 = 123" "xtime 177 = 121" "xtime 178 = 127" "xtime 179 = 125"
  "xtime 180 = 115" "xtime 181 = 113" "xtime 182 = 119" "xtime 183 = 117"
  "xtime 184 = 107" "xtime 185 = 105" "xtime 186 = 111" "xtime 187 = 109"
  "xtime 188 = 99" "xtime 189 = 97" "xtime 190 = 103" "xtime 191 = 101"
  "xtime 192 = 155" "xtime 193 = 153" "xtime 194 = 159" "xtime 195 = 157"
  "xtime 196 = 147" "xtime 197 = 145" "xtime 198 = 151" "xtime 199 = 149"
  "xtime 200 = 139" "xtime 201 = 137" "xtime 202 = 143" "xtime 203 = 141"
  "xtime 204 = 131" "xtime 205 = 129" "xtime 206 = 135" "xtime 207 = 133"
  "xtime 208 = 187" "xtime 209 = 185" "xtime 210 = 191" "xtime 211 = 189"
  "xtime 212 = 179" "xtime 213 = 177" "xtime 214 = 183" "xtime 215 = 181"
  "xtime 216 = 171" "xtime 217 = 169" "xtime 218 = 175" "xtime 219 = 173"
  "xtime 220 = 163" "xtime 221 = 161" "xtime 222 = 167" "xtime 223 = 165"
  "xtime 224 = 219" "xtime 225 = 217" "xtime 226 = 223" "xtime 227 = 221"
  "xtime 228 = 211" "xtime 229 = 209" "xtime 230 = 215" "xtime 231 = 213"
  "xtime 232 = 203" "xtime 233 = 201" "xtime 234 = 207" "xtime 235 = 205"
  "xtime 236 = 195" "xtime 237 = 193" "xtime 238 = 199" "xtime 239 = 197"
  "xtime 240 = 251" "xtime 241 = 249" "xtime 242 = 255" "xtime 243 = 253"
  "xtime 244 = 243" "xtime 245 = 241" "xtime 246 = 247" "xtime 247 = 245"
  "xtime 248 = 235" "xtime 249 = 233" "xtime 250 = 239" "xtime 251 = 237"
  "xtime 252 = 227" "xtime 253 = 225" "xtime 254 = 231" "xtime 255 = 229"
  by (simp_all add: xtime_def)

lemma gfMultiply_step_xtime:
  "gfMultiply_step (p, a, b) = (sel (bit b 0) a XOR p, xtime a, drop_bit 1 b)"
  by (simp add: gfMultiply_step_def IRREDUCIBLE_POLY_def xtime_def Let_def and_one_eq
      bit_0 mod_2_eq_odd sel_def xor.commute)

lemma gfMultiply_closed:
  "gfMultiply a b =
     sel (bit b 7) (xtime (xtime (xtime (xtime (xtime (xtime (xtime a))))))) XOR
     (sel (bit b 6) (xtime (xtime (xtime (xtime (xtime (xtime a)))))) XOR
     (sel (bit b 5) (xtime (xtime (xtime (xtime (xtime a))))) XOR
     (sel (bit b 4) (xtime (xtime (xtime (xtime a)))) XOR
     (sel (bit b 3) (xtime (xtime (xtime a))) XOR
     (sel (bit b 2) (xtime (xtime a)) XOR
     (sel (bit b 1) (xtime a) XOR
      sel (bit b 0) a))))))"
proof -
  have up: "[0..<8] = [0, 1, 2, 3, 4, 5, 6, 7]"
    by (simp add: upt_rec)
  show ?thesis
    unfolding gfMultiply_def up
    by (simp add: gfMultiply_step_xtime bit_drop_bit_eq drop_bit_drop_bit xor.assoc
        eval_nat_numeral)
qed

lemma gfInverseComputed_chain:
  "gfInverseComputed b =
     (if b = 0 then 0
      else gfSquare (gfStep (gfStep (gfStep (gfStep (gfStep (gfStep b b) b) b) b) b) b))"
proof -
  have up6: "[0..<6] = [0, 1, 2, 3, 4, 5]"
    by (simp add: upt_rec)
  show ?thesis
    unfolding gfInverseComputed_def up6
    by (simp only: fold_Cons fold_Nil o_apply Let_def gfSquare_def gfStep_def id_apply)
qed

lemmas gf_eval = gfStep_def gfSquare_def gfMultiply_closed xtime_table sel_simps

lemma inverse_table_is_power:
  "list_all2 (\<lambda>x y. gfInverseComputed x = y) all_bytes INVERSE_TABLE"
  unfolding all_bytes_def INVERSE_TABLE_def
  by (simp add: upt_rec gfInverseComputed_chain gf_eval)

lemma inverse_table_product:
  "list_all2 (\<lambda>x y. gfMultiply x y = (if x = 0 then 0 else 1)) all_bytes INVERSE_TABLE"
  unfolding all_bytes_def INVERSE_TABLE_def
  by (simp add: upt_rec gf_eval)

lemma byte_and_ff: "(x :: byte) AND 0xFF = x"
proof -
  have "(0xFF :: byte) = - 1"
    by simp
  then show ?thesis
    by (simp only: and.right_neutral)
qed

lemma gfInverse_nth: "gfInverse x = INVERSE_TABLE ! unat x"
  by (simp add: gfInverse_def byte_and_ff)

lemma gfInverseComputed_table: "gfInverseComputed x = INVERSE_TABLE ! unat x"
  by (rule bytes_table_all [OF inverse_table_is_power])

lemma gfMultiply_table: "gfMultiply x (INVERSE_TABLE ! unat x) = (if x = 0 then 0 else 1)"
  by (rule bytes_table_all [OF inverse_table_product])

lemma gfInverse_zero: "gfInverse 0 = 0"
  by (simp add: gfInverse_nth INVERSE_TABLE_def)

lemma verifyInverseTable_true: "verifyInverseTable"
proof -
  have "gfMultiply (word_of_nat i) (INVERSE_TABLE ! i) = 1" if "1 \<le> i" "i < 256" for i
  proof -
    let ?x = "word_of_nat i :: byte"
    have u: "unat ?x = i"
      using that by (simp add: unat_of_nat)
    then have "?x \<noteq> 0"
      using that by auto
    with gfMultiply_table [of ?x] u show ?thesis
      by simp
  qed
  then show ?thesis
    by (simp add: verifyInverseTable_def list_all_iff)
qed

section \<open>Claim C8\<close>

text \<open>
  C8. The two multiplicative-inverse code paths agree: for every byte \<open>x\<close> the table
  lookup \<open>gfInverse x\<close> equals \<open>gfInverseComputed x\<close> (the power 254 obtained by
  repeated \<open>gfMultiply\<close>); \<open>gfInverse 0 = 0\<close>; for every nonzero \<open>x\<close> the product
  \<open>gfMultiply x (gfInverse x)\<close> is 1; and \<open>verifyInverseTable\<close> returns true.
\<close>

theorem gfInverse_paths_agree:
  "gfInverse x = gfInverseComputed x
   \<and> gfInverse 0 = 0
   \<and> (x \<noteq> 0 \<longrightarrow> gfMultiply x (gfInverse x) = 1)
   \<and> verifyInverseTable"
  using gfMultiply_table [of x] gfInverse_zero
  by (simp add: gfInverse_nth gfInverseComputed_table verifyInverseTable_true)

theorem gfInverse_paths_agree_witness:
  "(0x53 :: byte) \<noteq> 0
   \<and> gfInverse 0x53 = gfInverseComputed 0x53
   \<and> gfInverse 0x53 = 0xCA
   \<and> gfMultiply 0x53 (gfInverse 0x53) = 1
   \<and> verifyInverseTable"
proof -
  have v: "gfInverse 0x53 = 0xCA"
    by (simp add: gfInverse_nth INVERSE_TABLE_def)
  show ?thesis
    using gfInverse_paths_agree [of "0x53"] v by simp
qed

section \<open>The affine product, bit by bit\<close>

lemma fold_xor_acc:
  "fold (\<lambda>j q. q \<noteq> f j) js p = (p \<noteq> fold (\<lambda>j q. q \<noteq> f j) js False)"
proof (induction js arbitrary: p)
  case Nil
  then show ?case by simp
next
  case (Cons j js)
  show ?case
    using Cons.IH [of "p \<noteq> f j"] Cons.IH [of "False \<noteq> f j"] by auto
qed

lemma xsum_Nil: "xsum f [] = False"
  by (simp add: xsum_def)

lemma xsum_Cons: "xsum f (j # js) = (f j \<noteq> xsum f js)"
  unfolding xsum_def using fold_xor_acc [of f js "f j"] by auto

lemma xsum_xor: "xsum (\<lambda>j. f j \<noteq> g j) js = (xsum f js \<noteq> xsum g js)"
  by (induction js) (auto simp add: xsum_Nil xsum_Cons)

lemma xsum_False: "xsum (\<lambda>j. False) js = False"
  by (induction js) (auto simp add: xsum_Nil xsum_Cons)

lemma xsum_cong: "(\<And>j. j \<in> set js \<Longrightarrow> f j = g j) \<Longrightarrow> xsum f js = xsum g js"
  by (induction js) (auto simp add: xsum_Nil xsum_Cons)

lemma fold_flip_bit:
  "fold (\<lambda>j b. if c j then b XOR 1 else b) js (of_bool p :: byte)
     = of_bool (fold (\<lambda>j q. q \<noteq> c j) js p)"
proof (induction js arbitrary: p)
  case Nil
  then show ?case by simp
next
  case (Cons j js)
  have "(of_bool p :: byte) XOR 1 = of_bool (\<not> p)"
    by (cases p) simp_all
  then show ?case
    using Cons.IH [of "\<not> p"] Cons.IH [of p] by (cases "c j") auto
qed

lemma low_bit_test: "(drop_bit j (w :: byte) AND 1 \<noteq> 0) = bit w j"
  by (simp add: and_one_eq bit_iff_odd_drop_bit mod_2_eq_odd)

lemma affineRowBit_dot: "affineRowBit row b = of_bool (dot row b)"
proof -
  have "affineRowBit row b
          = fold (\<lambda>j x. if bit row j \<and> bit b j then x XOR 1 else x) [0..<8] (of_bool False)"
    by (simp add: affineRowBit_def Let_def low_bit_test)
  then show ?thesis
    by (simp only: fold_flip_bit dot_def xsum_def)
qed

lemma bit_fold_set:
  "bit (fold (\<lambda>i r. if c i then r OR push_bit i 1 else r) ks (r0 :: byte)) k
     \<longleftrightarrow> bit r0 k \<or> (k \<in> set ks \<and> c k \<and> k < 8)"
proof (induction ks arbitrary: r0)
  case Nil
  then show ?case by simp
next
  case (Cons i ks)
  show ?case
    by (auto simp add: Cons.IH bit_or_iff bit_exp_iff)
qed

lemma bit_affineProduct: "bit (affineProduct b m) k \<longleftrightarrow> k < 8 \<and> dot (m ! k) b"
  by (auto simp add: affineProduct_def bit_fold_set affineRowBit_dot)

lemma up8: "[0..<8] = [0, 1, 2, 3, 4, 5, 6, 7]"
  by (simp add: upt_rec)

lemma dot_parity8: "dot a b = parity8 (a AND b)"
  unfolding dot_def parity8_def up8
  by (simp add: xsum_Cons xsum_Nil bit_and_iff)

lemma nat_less_8_cases: "k < 8 \<Longrightarrow> k \<in> {0, 1, 2, 3, 4, 5, 6, 7 :: nat}"
  by auto

lemma bit_sel_exp: "bit (sel c (2 ^ i)) k \<longleftrightarrow> c \<and> k = i \<and> i < 8"
  by (auto simp add: sel_def bit_exp_iff)

lemma affineProduct_eval:
  "affineProduct b [m0, m1, m2, m3, m4, m5, m6, m7] =
     sel (dot m0 b) (2 ^ 0) XOR (sel (dot m1 b) (2 ^ 1) XOR (sel (dot m2 b) (2 ^ 2) XOR
     (sel (dot m3 b) (2 ^ 3) XOR (sel (dot m4 b) (2 ^ 4) XOR (sel (dot m5 b) (2 ^ 5) XOR
     (sel (dot m6 b) (2 ^ 6) XOR sel (dot m7 b) (2 ^ 7)))))))"
proof (rule bit_eqI)
  fix k
  assume "possible_bit TYPE(byte) k"
  then have "k < 8"
    by simp
  then have "k \<in> {0, 1, 2, 3, 4, 5, 6, 7 :: nat}"
    by (rule nat_less_8_cases)
  then show "bit (affineProduct b [m0, m1, m2, m3, m4, m5, m6, m7]) k
      = bit (sel (dot m0 b) (2 ^ 0) XOR (sel (dot m1 b) (2 ^ 1) XOR (sel (dot m2 b) (2 ^ 2) XOR
     (sel (dot m3 b) (2 ^ 3) XOR (sel (dot m4 b) (2 ^ 4) XOR (sel (dot m5 b) (2 ^ 5) XOR
     (sel (dot m6 b) (2 ^ 6) XOR sel (dot m7 b) (2 ^ 7)))))))) k"
    unfolding bit_xor_iff bit_sel_exp bit_affineProduct
    by (elim insertE emptyE) simp_all
qed

section \<open>The state transformations on explicit grids\<close>

lemma up4: "[0..<4] = [0, 1, 2, 3]"
  by (simp add: upt_rec)

lemma up14: "[1..<4] = [1, 2, 3]"
  by (simp add: upt_rec)

lemma rep4: "replicate 4 x = [x, x, x, x]"
  by (simp add: eval_nat_numeral)

lemmas unroll = fold_Cons fold_Nil o_apply id_apply list.map

lemma up16: "[0..<16] = [0, 1, 2, 3, 4, 5, 6, 7, 8, 9, 10, 11, 12, 13, 14, 15]"
  by (simp add: upt_rec)

lemma length4E:
  assumes "length xs = 4"
  obtains a b c d where "xs = [a, b, c, d]"
proof -
  from assms obtain a b c d where "xs = [a, b, c, d]"
    by (auto simp add: length_Suc_conv eval_nat_numeral)
  then show ?thesis ..
qed

lemma wf_stateE:
  assumes "wf_state st"
  obtains a0 a1 a2 a3 b0 b1 b2 b3 c0 c1 c2 c3 d0 d1 d2 d3 where
    "st = [[a0, a1, a2, a3], [b0, b1, b2, b3], [c0, c1, c2, c3], [d0, d1, d2, d3]]"
proof -
  from assms have "length st = 4"
    by (simp add: wf_state_def)
  then obtain r0 r1 r2 r3 where st: "st = [r0, r1, r2, r3]"
    by (rule length4E)
  with assms have "length r0 = 4" "length r1 = 4" "length r2 = 4" "length r3 = 4"
    by (simp_all add: wf_state_def)
  then show ?thesis
    using st that by (elim length4E) blast
qed

lemma wf_state_lit [simp]:
  "wf_state [[a0, a1, a2, a3], [b0, b1, b2, b3], [c0, c1, c2, c3], [d0, d1, d2, d3]]"
  by (simp add: wf_state_def)


lemma bytesToState_lit:
  "bytesToState bytes =
    [[bytes ! 0, bytes ! 4, bytes ! 8, bytes ! 12],
     [bytes ! 1, bytes ! 5, bytes ! 9, bytes ! 13],
     [bytes ! 2, bytes ! 6, bytes ! 10, bytes ! 14],
     [bytes ! 3, bytes ! 7, bytes ! 11, bytes ! 15]]"
  by (simp add: bytesToState_def up4 up16)

lemma stateToBytes_lit:
  "stateToBytes [[a0, a1, a2, a3], [b0, b1, b2, b3], [c0, c1, c2, c3], [d0, d1, d2, d3]] =
     [a0, b0, c0, d0, a1, b1, c1, d1, a2, b2, c2, d2, a3, b3, c3, d3]"
  by (simp add: stateToBytes_def up4 up16)

lemma subBytes_lit:
  "subBytes [[a0, a1, a2, a3], [b0, b1, b2, b3], [c0, c1, c2, c3], [d0, d1, d2, d3]] sbox =
     [[sbox ! unat a0, sbox ! unat a1, sbox ! unat a2, sbox ! unat a3],
      [sbox ! unat b0, sbox ! unat b1, sbox ! unat b2, sbox ! unat b3],
      [sbox ! unat c0, sbox ! unat c1, sbox ! unat c2, sbox ! unat c3],
      [sbox ! unat d0, sbox ! unat d1, sbox ! unat d2, sbox ! unat d3]]"
  by (simp add: subBytes_def up4 up16)

lemma shiftRows_lit:
  "shiftRows [[a0, a1, a2, a3], [b0, b1, b2, b3], [c0, c1, c2, c3], [d0, d1, d2, d3]] =
     [[a0, a1, a2, a3], [b1, b2, b3, b0], [c2, c3, c0, c1], [d3, d0, d1, d2]]"
  by (simp add: shiftRows_def up4 up16)

lemma invShiftRows_lit:
  "invShiftRows [[a0, a1, a2, a3], [b0, b1, b2, b3], [c0, c1, c2, c3], [d0, d1, d2, d3]] =
     [[a0, a1, a2, a3], [b3, b0, b1, b2], [c2, c3, c0, c1], [d1, d2, d3, d0]]"
  by (simp add: invShiftRows_def up4 up16)

lemma addRoundKey_lit:
  "addRoundKey [[a0, a1, a2, a3], [b0, b1, b2, b3], [c0, c1, c2, c3], [d0, d1, d2, d3]] k =
     [[a0 XOR k ! 0 ! 0, a1 XOR k ! 0 ! 1, a2 XOR k ! 0 ! 2, a3 XOR k ! 0 ! 3],
      [b0 XOR k ! 1 ! 0, b1 XOR k ! 1 ! 1, b2 XOR k ! 1 ! 2, b3 XOR k ! 1 ! 3],
      [c0 XOR k ! 2 ! 0, c1 XOR k ! 2 ! 1, c2 XOR k ! 2 ! 2, c3 XOR k ! 2 ! 3],
      [d0 XOR k ! 3 ! 0, d1 XOR k ! 3 ! 1, d2 XOR k ! 3 ! 2, d3 XOR k ! 3 ! 3]]"
  by (simp add: addRoundKey_def up4 up16)


lemma high_bit_test: "((b :: byte) AND 0x80 \<noteq> 0) = bit b 7"
proof -
  have "(0x80 :: byte) = 2 ^ 7"
    by simp
  then show ?thesis
    by (simp only: and_exp_eq_0_iff_not_bit) simp
qed

lemma xor_cancel: "(a :: byte) XOR (a XOR b) = b"
  by (simp add: xor.assoc [symmetric])

lemmas xor_ac = xor.assoc xor.commute xor.left_commute

lemma xtime_alt: "xtime b = push_bit 1 b XOR sel (bit b 7) 0x1B"
  by (simp add: xtime_def Let_def high_bit_test byte_and_ff sel_def)

lemma sel_xor: "sel (p \<noteq> q) v = sel p v XOR sel q v"
  by (cases p; cases q) (simp_all add: sel_def)

lemma xtime_xor: "xtime (a XOR b) = xtime a XOR xtime b"
  by (cases "bit a 7"; cases "bit b 7")
    (simp_all add: xtime_alt push_bit_xor bit_xor_iff sel_def xor_ac)

lemma xtime_zero: "xtime 0 = 0"
  by (simp add: xtime_alt sel_def)

lemma gmc_simps:
  "gfMultiplyConstant b 1 = b"
  "gfMultiplyConstant b 2 = xtime b"
  "gfMultiplyConstant b 3 = xtime b XOR b"
  "gfMultiplyConstant b 9 = xtime (xtime (xtime b)) XOR b"
  "gfMultiplyConstant b 11 = xtime (xtime (xtime b)) XOR xtime b XOR b"
  "gfMultiplyConstant b 13 = xtime (xtime (xtime b)) XOR xtime (xtime b) XOR b"
  "gfMultiplyConstant b 14 = xtime (xtime (xtime b)) XOR xtime (xtime b) XOR xtime b"
  by (simp_all add: gfMultiplyConstant_def)

lemma mixColumns_lit:
  "mixColumns [[a0, a1, a2, a3], [b0, b1, b2, b3], [c0, c1, c2, c3], [d0, d1, d2, d3]] =
    [[xtime a0 XOR (xtime b0 XOR b0) XOR c0 XOR d0, xtime a1 XOR (xtime b1 XOR b1) XOR c1 XOR d1,
      xtime a2 XOR (xtime b2 XOR b2) XOR c2 XOR d2, xtime a3 XOR (xtime b3 XOR b3) XOR c3 XOR d3],
     [a0 XOR xtime b0 XOR (xtime c0 XOR c0) XOR d0, a1 XOR xtime b1 XOR (xtime c1 XOR c1) XOR d1,
      a2 XOR xtime b2 XOR (xtime c2 XOR c2) XOR d2, a3 XOR xtime b3 XOR (xtime c3 XOR c3) XOR d3],
     [a0 XOR b0 XOR xtime c0 XOR (xtime d0 XOR d0), a1 XOR b1 XOR xtime c1 XOR (xtime d1 XOR d1),
      a2 XOR b2 XOR xtime c2 XOR (xtime d2 XOR d2), a3 XOR b3 XOR xtime c3 XOR (xtime d3 XOR d3)],
     [(xtime a0 XOR a0) XOR b0 XOR c0 XOR xtime d0, (xtime a1 XOR a1) XOR b1 XOR c1 XOR xtime d1,
      (xtime a2 XOR a2) XOR b2 XOR c2 XOR xtime d2, (xtime a3 XOR a3) XOR b3 XOR c3 XOR xtime d3]]"
  by (simp add: mixColumns_def mixWith_def MIX_COLUMNS_MATRIX_def up4 gmc_simps xor.assoc)

lemma wf_mixWith: "wf_state (mixWith m st)"
  by (simp add: mixWith_def wf_state_def up4)

lemma invMix_column:
  fixes a b c d :: byte
  defines "p \<equiv> xtime a XOR (xtime b XOR b) XOR c XOR d"
    and "q \<equiv> a XOR xtime b XOR (xtime c XOR c) XOR d"
    and "r \<equiv> a XOR b XOR xtime c XOR (xtime d XOR d)"
    and "s \<equiv> (xtime a XOR a) XOR b XOR c XOR xtime d"
  shows "gfMultiplyConstant p 14 XOR gfMultiplyConstant q 11 XOR gfMultiplyConstant r 13
           XOR gfMultiplyConstant s 9 = a"
    and "gfMultiplyConstant p 9 XOR gfMultiplyConstant q 14 XOR gfMultiplyConstant r 11
           XOR gfMultiplyConstant s 13 = b"
    and "gfMultiplyConstant p 13 XOR gfMultiplyConstant q 9 XOR gfMultiplyConstant r 14
           XOR gfMultiplyConstant s 11 = c"
    and "gfMultiplyConstant p 11 XOR gfMultiplyConstant q 13 XOR gfMultiplyConstant r 9
           XOR gfMultiplyConstant s 14 = d"
  unfolding p_def q_def r_def s_def gmc_simps
  by (simp_all add: xtime_xor xor_ac xor_cancel)


lemma invMixColumns_lit:
  "invMixColumns [[a0, a1, a2, a3], [b0, b1, b2, b3], [c0, c1, c2, c3], [d0, d1, d2, d3]] =
    [map (\<lambda>(a, b, c, d). gfMultiplyConstant a 14 XOR gfMultiplyConstant b 11
              XOR gfMultiplyConstant c 13 XOR gfMultiplyConstant d 9)
       [(a0, b0, c0, d0), (a1, b1, c1, d1), (a2, b2, c2, d2), (a3, b3, c3, d3)],
     map (\<lambda>(a, b, c, d). gfMultiplyConstant a 9 XOR gfMultiplyConstant b 14
              XOR gfMultiplyConstant c 11 XOR gfMultiplyConstant d 13)
       [(a0, b0, c0, d0), (a1, b1, c1, d1), (a2, b2, c2, d2), (a3, b3, c3, d3)],
     map (\<lambda>(a, b, c, d). gfMultiplyConstant a 13 XOR gfMultiplyConstant b 9
              XOR gfMultiplyConstant c 14 XOR gfMultiplyConstant d 11)
       [(a0, b0, c0, d0), (a1, b1, c1, d1), (a2, b2, c2, d2), (a3, b3, c3, d3)],
     map (\<lambda>(a, b, c, d). gfMultiplyConstant a 11 XOR gfMultiplyConstant b 13
              XOR gfMultiplyConstant c 9 XOR gfMultiplyConstant d 14)
       [(a0, b0, c0, d0), (a1, b1, c1, d1), (a2, b2, c2, d2), (a3, b3, c3, d3)]]"
  by (simp add: invMixColumns_def mixWith_def INV_MIX_COLUMNS_MATRIX_def up4 xor.assoc)

lemma invMixColumns_mixColumns:
  assumes "wf_state st"
  shows "invMixColumns (mixColumns st) = st"
proof -
  from assms obtain a0 a1 a2 a3 b0 b1 b2 b3 c0 c1 c2 c3 d0 d1 d2 d3 where
    st: "st = [[a0, a1, a2, a3], [b0, b1, b2, b3], [c0, c1, c2, c3], [d0, d1, d2, d3]]"
    by (rule wf_stateE)
  show ?thesis
    unfolding st mixColumns_lit invMixColumns_lit
    by (simp only: list.map prod.case invMix_column)
qed

lemma invShiftRows_shiftRows:
  assumes "wf_state st"
  shows "invShiftRows (shiftRows st) = st"
proof -
  from assms obtain a0 a1 a2 a3 b0 b1 b2 b3 c0 c1 c2 c3 d0 d1 d2 d3 where
    st: "st = [[a0, a1, a2, a3], [b0, b1, b2, b3], [c0, c1, c2, c3], [d0, d1, d2, d3]]"
    by (rule wf_stateE)
  show ?thesis
    unfolding st shiftRows_lit invShiftRows_lit ..
qed

lemma addRoundKey_twice:
  assumes "wf_state st"
  shows "addRoundKey (addRoundKey st k) k = st"
proof -
  from assms obtain a0 a1 a2 a3 b0 b1 b2 b3 c0 c1 c2 c3 d0 d1 d2 d3 where
    st: "st = [[a0, a1, a2, a3], [b0, b1, b2, b3], [c0, c1, c2, c3], [d0, d1, d2, d3]]"
    by (rule wf_stateE)
  show ?thesis
    unfolding st addRoundKey_lit
    by (simp add: xor.assoc)
qed

lemma invSubBytes_subBytes:
  assumes "wf_state st" and "\<And>x. invSbox ! unat (sbox ! unat x) = x"
  shows "invSubBytes (subBytes st sbox) invSbox = st"
proof -
  from assms(1) obtain a0 a1 a2 a3 b0 b1 b2 b3 c0 c1 c2 c3 d0 d1 d2 d3 where
    st: "st = [[a0, a1, a2, a3], [b0, b1, b2, b3], [c0, c1, c2, c3], [d0, d1, d2, d3]]"
    by (rule wf_stateE)
  show ?thesis
    unfolding st invSubBytes_def subBytes_lit
    by (simp only: assms(2))
qed

lemma wf_subBytes: "wf_state (subBytes st sbox)"
  by (simp add: subBytes_def wf_state_def up4)

lemma wf_addRoundKey: "wf_state (addRoundKey st k)"
  by (simp add: addRoundKey_def wf_state_def up4)

lemma wf_mixColumns: "wf_state (mixColumns st)"
  by (simp add: mixColumns_def wf_mixWith)

lemma wf_bytesToState: "wf_state (bytesToState bytes)"
  by (simp add: bytesToState_def wf_state_def up4)

lemma wf_shiftRows: "wf_state st \<Longrightarrow> wf_state (shiftRows st)"
  by (erule wf_stateE) (simp add: shiftRows_lit)

lemma bytesToState_stateToBytes:
  assumes "wf_state st"
  shows "bytesToState (stateToBytes st) = st"
proof -
  from assms obtain a0 a1 a2 a3 b0 b1 b2 b3 c0 c1 c2 c3 d0 d1 d2 d3 where
    st: "st = [[a0, a1, a2, a3], [b0, b1, b2, b3], [c0, c1, c2, c3], [d0, d1, d2, d3]]"
    by (rule wf_stateE)
  show ?thesis
    unfolding st stateToBytes_lit bytesToState_lit by simp
qed

lemma stateToBytes_bytesToState:
  assumes "length bytes = 16"
  shows "stateToBytes (bytesToState bytes) = bytes"
proof (rule nth_equalityI)
  show "length (stateToBytes (bytesToState bytes)) = length bytes"
    using assms by (simp add: stateToBytes_def)
next
  fix i
  assume "i < length (stateToBytes (bytesToState bytes))"
  then have i: "i < 16"
    by (simp add: stateToBytes_def)
  then have "i mod 4 < 4" "i div 4 < 4"
    by simp_all
  with i show "stateToBytes (bytesToState bytes) ! i = bytes ! i"
    by (simp add: stateToBytes_def bytesToState_def)
qed

section \<open>Padding\<close>

lemma find_None_upt: "find P [a..<b] = None \<longleftrightarrow> (\<forall>i. a \<le> i \<and> i < b \<longrightarrow> \<not> P i)"
  by (auto simp add: find_None_iff)

lemma pkcs7Unpad_violation:
  assumes "paddingViolation data"
  shows "\<exists>e. pkcs7Unpad data = Inl (InvalidPadding e)"
proof (cases "data = []")
  case True
  then show ?thesis by (simp add: pkcs7Unpad_def)
next
  case False
  then have l: "data ! (length data - Suc 0) = last data"
    by (simp add: last_conv_nth)
  show ?thesis
  proof (cases "find (\<lambda>i. data ! i \<noteq> last data) [length data - unat (last data)..<length data]")
    case None
    then have "\<forall>i. length data - unat (last data) \<le> i \<and> i < length data \<longrightarrow> data ! i = last data"
      by (simp add: find_None_upt)
    with assms False have "last data < 1 \<or> 16 < last data \<or> length data < unat (last data)"
      unfolding paddingViolation_def by blast
    then have "16 < last data \<or> last data = 0 \<or> length data < unat (last data)"
      by (auto simp add: word_less_1)
    with False show ?thesis
      by (auto simp add: pkcs7Unpad_def l Let_def)
  next
    case (Some i)
    with False show ?thesis
      by (auto simp add: pkcs7Unpad_def l Let_def)
  qed
qed

lemma pkcs7Unpad_ok:
  assumes "\<not> paddingViolation data"
  shows "pkcs7Unpad data = Inr (take (length data - unat (last data)) data)"
proof -
  from assms have ne: "data \<noteq> []" and a: "\<not> last data < 1" and b: "\<not> 16 < last data"
    and c: "\<not> length data < unat (last data)"
    and d: "\<forall>i < length data. length data - unat (last data) \<le> i \<longrightarrow> data ! i = last data"
    unfolding paddingViolation_def by auto
  from ne have l: "data ! (length data - Suc 0) = last data"
    by (simp add: last_conv_nth)
  from a have a': "last data \<noteq> 0"
    by (simp add: word_less_1)
  from d have "find (\<lambda>i. data ! i \<noteq> last data) [length data - unat (last data)..<length data] = None"
    by (simp add: find_None_upt)
  with ne a' b c show ?thesis
    by (simp add: pkcs7Unpad_def l Let_def)
qed

section \<open>The step trace\<close>

lemma up19: "[1..<10] = [1, 2, 3, 4, 5, 6, 7, 8, 9]" "[Suc 0..<10] = [1, 2, 3, 4, 5, 6, 7, 8, 9]"
  by (simp_all add: upt_rec)

lemma cloneState_id: "cloneState st = st"
  by (simp add: cloneState_def)

lemma stepOf_sel:
  "round_no (stepOf r op st rk) = r" "operation (stepOf r op st rk) = op"
  "state (stepOf r op st rk) = st" "roundKey (stepOf r op st rk) = rk"
  by (simp_all add: stepOf_def)

lemma stepsRound_unfold:
  "stepsRound sbox rks r (st, trace) =
     (addRoundKey (mixColumns (shiftRows (subBytes st sbox))) (rks ! r),
      trace @ [stepOf r SubBytes (subBytes st sbox) None,
               stepOf r ShiftRows (shiftRows (subBytes st sbox)) None,
               stepOf r MixColumns (mixColumns (shiftRows (subBytes st sbox))) None,
               stepOf r AddRoundKey (addRoundKey (mixColumns (shiftRows (subBytes st sbox))) (rks ! r))
                 (Some (rks ! r))])"
  by (simp add: stepsRound_def Let_def cloneState_id stepOf_def)

lemma replays_append:
  "replays sbox rks prev (xs @ ys) =
     (replays sbox rks prev xs \<and> replays sbox rks (if xs = [] then prev else state (last xs)) ys)"
  by (induction xs arbitrary: prev) auto

lemma replays_nth:
  assumes "replays sbox rks prev ss" and "i < length ss"
  shows "state (ss ! i) = applyOperation (operation (ss ! i)) sbox (rks ! round_no (ss ! i))
           (if i = 0 then prev else state (ss ! (i - 1)))"
  using assms
proof (induction ss arbitrary: prev i)
  case Nil
  then show ?case by simp
next
  case (Cons s ss)
  show ?case
  proof (cases i)
    case 0
    with Cons.prems show ?thesis by simp
  next
    case (Suc k)
    have r: "replays sbox rks (state s) ss"
      using Cons.prems(1) unfolding replays.simps by (rule conjunct2)
    from Cons.prems(2) Suc have k: "k < length ss"
      by simp
    from Cons.IH [OF r k] Suc show ?thesis
      by (cases k) simp_all
  qed
qed

text \<open>The loop over the rounds keeps the trace replayable and ends on the running state.\<close>

lemma fold_stepsRound:
  assumes "trace \<noteq> []" and "state (last trace) = st" and "replays sbox rks prev trace"
  shows "case fold (stepsRound sbox rks) rs (st, trace) of
           (st', trace') \<Rightarrow>
             trace' \<noteq> [] \<and> state (last trace') = st' \<and> replays sbox rks prev trace'
             \<and> map (\<lambda>s. (round_no s, operation s)) trace'
                 = map (\<lambda>s. (round_no s, operation s)) trace @ concat (map roundOrder rs)"
  using assms
proof (induction rs arbitrary: st trace)
  case Nil
  then show ?case by simp
next
  case (Cons r rs)
  let ?st = "addRoundKey (mixColumns (shiftRows (subBytes st sbox))) (rks ! r)"
  let ?new = "[stepOf r SubBytes (subBytes st sbox) None,
               stepOf r ShiftRows (shiftRows (subBytes st sbox)) None,
               stepOf r MixColumns (mixColumns (shiftRows (subBytes st sbox))) None,
               stepOf r AddRoundKey ?st (Some (rks ! r))]"
  have a: "trace @ ?new \<noteq> []" by simp
  have b: "state (last (trace @ ?new)) = ?st" by (simp add: stepOf_sel)
  have c: "replays sbox rks prev (trace @ ?new)"
    using Cons.prems by (simp add: replays_append stepOf_sel applyOperation_def)
  from Cons.IH [OF a b c] show ?case
    by (simp add: stepsRound_unfold stepOf_sel roundOrder_def split: prod.splits)
qed


lemma length_expectedOrder: "length expectedOrder = 41"
  by (simp add: expectedOrder_def up19)

lemma encryptBlockWithSteps_replays:
  "replays sbox (keyExpansion key sbox) (bytesToState block)
     (steps (encryptBlockWithSteps block key sbox))"
  "map (\<lambda>s. (round_no s, operation s)) (steps (encryptBlockWithSteps block key sbox))
     = expectedOrder"
proof -
  define R where "R = encryptBlockWithSteps block key sbox"
  let ?rks = "keyExpansion key sbox"
  let ?st = "bytesToState block"
  let ?sa = "addRoundKey ?st (?rks ! 0)"
  let ?ta = "[stepOf 0 Initial ?st None, stepOf 0 AddRoundKey ?sa (Some (?rks ! 0))]"
  have a: "?ta \<noteq> []" by simp
  have b: "state (last ?ta) = ?sa" by (simp add: stepOf_sel)
  have c: "replays sbox ?rks ?st ?ta"
    by (simp add: stepOf_sel applyOperation_def)
  obtain st9 t9 where f: "fold (stepsRound sbox ?rks) [1..<10] (?sa, ?ta) = (st9, t9)"
    by (cases "fold (stepsRound sbox ?rks) [1..<10] (?sa, ?ta)")
  from fold_stepsRound [OF a b c, of "[1..<10]"] f
  have t9: "t9 \<noteq> []" "state (last t9) = st9" "replays sbox ?rks ?st t9"
    "map (\<lambda>s. (round_no s, operation s)) t9
       = map (\<lambda>s. (round_no s, operation s)) ?ta @ concat (map roundOrder [1..<10])"
    by simp_all
  let ?new = "[stepOf 10 SubBytes (subBytes st9 sbox) None,
               stepOf 10 ShiftRows (shiftRows (subBytes st9 sbox)) None,
               stepOf 10 AddRoundKey (addRoundKey (shiftRows (subBytes st9 sbox)) (?rks ! 10))
                 (Some (?rks ! 10))]"
  have R: "steps R = t9 @ ?new"
    unfolding R_def encryptBlockWithSteps_def Let_def cloneState_id
    using f by (simp add: stepOf_def)
  show "replays sbox ?rks ?st (steps (encryptBlockWithSteps block key sbox))"
    unfolding R_def [symmetric] R using t9 by (simp add: replays_append stepOf_sel applyOperation_def)
  have "(\<lambda>r. [(r, SubBytes), (r, ShiftRows), (r, MixColumns), (r, AddRoundKey)]) = roundOrder"
    by (simp add: roundOrder_def fun_eq_iff)
  then show "map (\<lambda>s. (round_no s, operation s)) (steps (encryptBlockWithSteps block key sbox))
      = expectedOrder"
    unfolding R_def [symmetric] R expectedOrder_def by (simp add: t9 stepOf_sel)
qed

section \<open>The metric loops\<close>

text \<open>Sums accumulated by the two loops.\<close>

lemma fold_add_pair:
  "fold (\<lambda>j (a, b). (a + f j, b + c)) js (a0, b0) = (a0 + sum_list (map f js), b0 + c * length js)"
  for a0 b0 c :: nat
  by (induction js arbitrary: a0 b0) (simp_all add: algebra_simps)

lemma fold_fold_add_pair:
  "fold (\<lambda>i acc. fold (\<lambda>j (a, b). (a + f i j, b + c)) js acc) is (a0, b0)
     = (a0 + sum_list (map (\<lambda>i. sum_list (map (f i) js)) is), b0 + c * length js * length is)"
  for a0 b0 c :: nat
  by (induction "is" arbitrary: a0 b0) (simp_all add: fold_add_pair algebra_simps)

lemma sum_list_swap:
  "sum_list (map (\<lambda>i. sum_list (map (\<lambda>j. f i j) js)) is)
     = sum_list (map (\<lambda>j. sum_list (map (\<lambda>i. f i j) is)) js)"
  for f :: "nat \<Rightarrow> nat \<Rightarrow> 'a :: comm_monoid_add"
  by (induction "is") (simp_all add: sum_list_addf)

lemma sum_list_concat_map:
  "sum_list (concat (map (\<lambda>j. map (g j) is) js)) = sum_list (map (\<lambda>j. sum_list (map (g j) is)) js)"
  for g :: "nat \<Rightarrow> nat \<Rightarrow> real"
  by (induction js) simp_all

lemma sum_list_divide: "sum_list (map (\<lambda>i. f i / c) is) = sum_list (map f is) / c"
  for f :: "nat \<Rightarrow> real"
  by (induction "is") (simp_all add: add_divide_distrib)

lemma real_sum_list: "real (sum_list (map f is)) = sum_list (map (\<lambda>i. real (f i)) is)"
  by (induction "is") simp_all

lemma fold_count:
  "fold (\<lambda>x c. if P x then c + 1 else c) xs c0 = c0 + length (filter P xs)"
  for c0 :: nat
  by (induction xs arbitrary: c0) simp_all

lemma lapCount_filter:
  "lapCount sbox a b =
     length (filter (\<lambda>x. hammingWeight (x AND a) AND 1 = hammingWeight (unat (sbox ! x) AND b) AND 1)
               [0..<256])"
  by (simp add: lapCount_def Let_def fold_count del: upt_Suc)

lemma lapCount_le: "lapCount sbox a b \<le> 256"
  unfolding lapCount_filter using length_filter_le [of _ "[0..<256]"] by simp

lemma lapBias_le_half: "lapBias sbox a b \<le> 1 / 2"
proof -
  have "real (lapCount sbox a b) \<le> 256"
    using lapCount_le [of sbox a b] by simp
  moreover have "0 \<le> real (lapCount sbox a b)"
    by simp
  ultimately show ?thesis
    unfolding lapBias_def by (auto simp add: abs_if)
qed

lemma lapBias_lt_half:
  assumes "0 < lapCount sbox a b" and "lapCount sbox a b < 256"
  shows "lapBias sbox a b < 1 / 2"
proof -
  from assms have "0 < real (lapCount sbox a b)" "real (lapCount sbox a b) < 256"
    by simp_all
  then show ?thesis
    unfolding lapBias_def by (auto simp add: abs_if)
qed

text \<open>The running maximum of the two nested loops.\<close>

lemma inner_max:
  fixes g :: "nat \<Rightarrow> real"
  defines "F \<equiv> \<lambda>js m. fold (\<lambda>j m. let bias = g j in if bias > m then bias else m) js m"
  shows "m \<le> F js m" and "j \<in> set js \<Longrightarrow> g j \<le> F js m"
    and "m \<le> c \<Longrightarrow> (\<And>j. j \<in> set js \<Longrightarrow> g j \<le> c) \<Longrightarrow> F js m \<le> c"
proof -
  have mono: "m \<le> F js m" for js m
    unfolding F_def
  proof (induction js arbitrary: m)
    case Nil
    then show ?case by simp
  next
    case (Cons k js)
    have "m \<le> (if g k > m then g k else m)"
      by simp
    also have "\<dots> \<le> fold (\<lambda>j m. let bias = g j in if bias > m then bias else m) js
                     (if g k > m then g k else m)"
      by (rule Cons.IH)
    finally show ?case
      by (simp add: Let_def)
  qed
  show "m \<le> F js m"
    by (rule mono)
  show "j \<in> set js \<Longrightarrow> g j \<le> F js m"
  proof (induction js arbitrary: m)
    case Nil
    then show ?case by simp
  next
    case (Cons k js)
    have step: "F (k # js) m = F js (if g k > m then g k else m)"
      by (simp add: F_def Let_def)
    show ?case
    proof (cases "j = k")
      case True
      have "g k \<le> (if g k > m then g k else m)"
        by simp
      also have "\<dots> \<le> F js (if g k > m then g k else m)"
        by (rule mono)
      finally show ?thesis
        using True step by simp
    next
      case False
      with Cons.prems have "j \<in> set js"
        by simp
      then show ?thesis
        unfolding step by (rule Cons.IH)
    qed
  qed
  show "m \<le> c \<Longrightarrow> (\<And>j. j \<in> set js \<Longrightarrow> g j \<le> c) \<Longrightarrow> F js m \<le> c"
  proof (induction js arbitrary: m)
    case Nil
    then show ?case by (simp add: F_def)
  next
    case (Cons k js)
    have step: "F (k # js) m = F js (if g k > m then g k else m)"
      by (simp add: F_def Let_def)
    have "(if g k > m then g k else m) \<le> c"
      using Cons.prems by simp
    then show ?case
      unfolding step using Cons.prems(2) by (intro Cons.IH) simp_all
  qed
qed

lemma outer_max:
  fixes F :: "nat \<Rightarrow> real \<Rightarrow> real"
  assumes mono: "\<And>a m. m \<le> F a m"
  shows "m \<le> fold F as m"
    and "a \<in> set as \<Longrightarrow> (\<And>m. v \<le> F a m) \<Longrightarrow> v \<le> fold F as m"
    and "m \<le> c \<Longrightarrow> (\<And>a m. a \<in> set as \<Longrightarrow> m \<le> c \<Longrightarrow> F a m \<le> c) \<Longrightarrow> fold F as m \<le> c"
proof -
  have m: "m \<le> fold F as m" for as m
  proof (induction as arbitrary: m)
    case Nil
    then show ?case by simp
  next
    case (Cons b as)
    have "m \<le> F b m" by (rule mono)
    also have "\<dots> \<le> fold F as (F b m)" by (rule Cons.IH)
    finally show ?case by simp
  qed
  show "m \<le> fold F as m"
    by (rule m)
  show "a \<in> set as \<Longrightarrow> (\<And>m. v \<le> F a m) \<Longrightarrow> v \<le> fold F as m"
  proof (induction as arbitrary: m)
    case Nil
    then show ?case by simp
  next
    case (Cons b as)
    show ?case
    proof (cases "a = b")
      case True
      have "v \<le> F b m" using Cons.prems(2) True by simp
      also have "\<dots> \<le> fold F as (F b m)" by (rule m)
      finally show ?thesis by simp
    next
      case False
      with Cons.prems have "a \<in> set as" by simp
      then have "v \<le> fold F as (F b m)"
        using Cons.prems(2) by (rule Cons.IH)
      then show ?thesis by simp
    qed
  qed
  show "m \<le> c \<Longrightarrow> (\<And>a m. a \<in> set as \<Longrightarrow> m \<le> c \<Longrightarrow> F a m \<le> c) \<Longrightarrow> fold F as m \<le> c"
  proof (induction as arbitrary: m)
    case Nil
    then show ?case by simp
  next
    case (Cons b as)
    have "F b m \<le> c"
      using Cons.prems by simp
    then have "fold F as (F b m) \<le> c"
      using Cons.prems(2) by (intro Cons.IH) simp_all
    then show ?case by simp
  qed
qed

lemma calculateLAP_ge:
  assumes "a < 256" and "1 \<le> b" and "b < 256"
  shows "lapBias sbox a b \<le> calculateLAP sbox"
  unfolding calculateLAP_def
proof (rule outer_max(2) [where a = a])
  show "m \<le> fold (\<lambda>outputMask maxBias. let bias = lapBias sbox a outputMask
          in if maxBias < bias then bias else maxBias) [1..<256] m" for a m
    by (rule inner_max(1))
  show "a \<in> set [0..<256]"
    using assms by simp
  show "lapBias sbox a b \<le> fold (\<lambda>outputMask maxBias. let bias = lapBias sbox a outputMask
          in if maxBias < bias then bias else maxBias) [1..<256] m" for m
    by (rule inner_max(2)) (use assms in simp)
qed

lemma calculateLAP_le_half: "calculateLAP sbox \<le> 1 / 2"
  unfolding calculateLAP_def
proof (rule outer_max(3))
  show "m \<le> fold (\<lambda>outputMask maxBias. let bias = lapBias sbox a outputMask
          in if maxBias < bias then bias else maxBias) [1..<256] m" for a m
    by (rule inner_max(1))
  show "(0 :: real) \<le> 1 / 2"
    by simp
  show "fold (\<lambda>outputMask maxBias. let bias = lapBias sbox a outputMask
          in if maxBias < bias then bias else maxBias) [1..<256] m \<le> 1 / 2"
    if "m \<le> 1 / 2" for a m
    using that by (rule inner_max(3)) (rule lapBias_le_half)
qed


lemma hammingWeightLoop_zero: "hammingWeightLoop c 0 = c"
  by (subst hammingWeightLoop.simps) simp

lemma hammingWeight_zero: "hammingWeight 0 = 0"
  by (simp add: hammingWeight_def hammingWeightLoop_zero)

lemma hammingWeightLoop_exp: "hammingWeightLoop c (2 ^ k) = c + 1"
proof (induction k arbitrary: c)
  case 0
  show ?case
    by (subst hammingWeightLoop.simps) (simp add: hammingWeightLoop_zero)
next
  case (Suc k)
  have "hammingWeightLoop c (2 ^ Suc k) = hammingWeightLoop (c + (2 ^ Suc k AND 1)) (drop_bit 1 (2 ^ Suc k))"
    by (subst hammingWeightLoop.simps) simp
  also have "(2 ^ Suc k AND 1 :: nat) = 0"
    by (simp add: and_one_eq)
  also have "drop_bit 1 (2 ^ Suc k :: nat) = 2 ^ k"
    by (simp add: drop_bit_eq_div)
  finally show ?case
    by (simp add: Suc.IH)
qed

lemma hammingWeight_exp: "hammingWeight (2 ^ k) = 1"
  by (simp add: hammingWeight_def hammingWeightLoop_exp)

lemma nat_set_bit:
  assumes "0 < a" and "a < 256"
  obtains k where "bit a k" and "(2 :: nat) ^ k < 256" and "2 ^ k AND a = (2 :: nat) ^ k"
proof -
  from assms(1) have "a \<noteq> 0" by simp
  then obtain k where k: "bit a k"
    by (auto simp add: bit_eq_iff)
  have le: "(2 :: nat) ^ k \<le> a"
  proof (rule ccontr)
    assume "\<not> 2 ^ k \<le> a"
    then have "a div 2 ^ k = 0" by simp
    with k show False by (simp add: bit_iff_odd)
  qed
  have "2 ^ k AND a = (2 :: nat) ^ k"
    by (rule bit_eqI) (use k in \<open>auto simp add: bit_and_iff bit_exp_iff\<close>)
  with k le assms(2) show ?thesis
    by (intro that [of k]) simp_all
qed

lemma zeroBox_nth: "x < 256 \<Longrightarrow> zeroBox ! x = 0"
  by (simp add: zeroBox_def)

lemma lapCount_zeroBox:
  "lapCount zeroBox a b = length (filter (\<lambda>x. hammingWeight (x AND a) AND 1 = 0) [0..<256])"
  unfolding lapCount_filter
  by (rule arg_cong [where f = length], rule filter_cong)
    (simp_all add: zeroBox_nth hammingWeight_zero del: upt_Suc)

lemma lapCount_zeroBox_0: "lapCount zeroBox 0 b = 256"
  unfolding lapCount_zeroBox by (simp add: hammingWeight_zero del: upt_Suc)

lemma lapCount_zeroBox_pos: "0 < lapCount zeroBox a b"
proof -
  have "0 \<in> set [0..<256]" "hammingWeight (0 AND a) AND 1 = 0"
    by (simp_all add: hammingWeight_zero)
  then have "filter (\<lambda>x. hammingWeight (x AND a) AND 1 = 0) [0..<256] \<noteq> []"
    unfolding filter_empty_conv by blast
  then show ?thesis
    unfolding lapCount_zeroBox by simp
qed

lemma lapCount_zeroBox_less:
  assumes "0 < a" and "a < 256"
  shows "lapCount zeroBox a b < 256"
proof -
  from assms obtain k where k: "(2 :: nat) ^ k < 256" "2 ^ k AND a = (2 :: nat) ^ k"
    by (rule nat_set_bit)
  then have "2 ^ k \<in> set [0..<256]" "\<not> hammingWeight (2 ^ k AND a) AND 1 = 0"
    by (simp_all add: hammingWeight_exp)
  then have "length (filter (\<lambda>x. hammingWeight (x AND a) AND 1 = 0) [0..<256]) < length [0..<256]"
    by (intro length_filter_less)
  then show ?thesis
    unfolding lapCount_zeroBox by simp
qed

section \<open>Claim C2\<close>

lemma generateSBox_nth:
  "x < 256 \<Longrightarrow> generateSBox m c ! x = applyAffine (INVERSE_TABLE ! x) m c"
  by (simp add: generateSBox_def)

lemmas affine_eval = applyAffine_def affineProduct_eval dot_parity8 parity8_def sel_simps

lemma inverse_table_head:
  "INVERSE_TABLE ! 0 = 0" "INVERSE_TABLE ! Suc 0 = 1" "INVERSE_TABLE ! 2 = 141"
  by (simp_all add: INVERSE_TABLE_def)

lemma aes_sbox_head:
  "AES_SBOX ! 0 = 99" "AES_SBOX ! 1 = 124" "AES_SBOX ! 2 = 119"
  by (simp_all add: AES_SBOX_def)

text \<open>
  C2. With the matrix \<open>{0x57,0xAB,0xD5,0xEA,0x75,0xBA,0x5D,0xAE}\<close> and constant 0x63,
  \<open>generateSBox\<close> yields the entries 0x63, 0x34, 0xA5 at 0, 1, 2. With the matrix
  \<open>{0x8F,0xC7,0xE3,0xF1,0xF8,0x7C,0x3E,0x1F}\<close> and constant 0x63 the table that
  \<open>generateSBox\<close> returns starts 99, 236, 225, whereas \<open>AES_SBOX\<close> starts
  99, 124, 119: on this input the generated table is not the standard AES S-box.
\<close>

theorem generateSBox_presets:
  "generateSBox K44_MATRIX 0x63 ! 0 = 0x63
   \<and> generateSBox K44_MATRIX 0x63 ! 1 = 0x34
   \<and> generateSBox K44_MATRIX 0x63 ! 2 = 0xA5
   \<and> generateSBox KAES_MATRIX 0x63 ! 0 = 99
   \<and> generateSBox KAES_MATRIX 0x63 ! 1 = 236
   \<and> generateSBox KAES_MATRIX 0x63 ! 2 = 225
   \<and> AES_SBOX ! 0 = 99
   \<and> AES_SBOX ! 1 = 124
   \<and> AES_SBOX ! 2 = 119
   \<and> generateSBox KAES_MATRIX 0x63 \<noteq> AES_SBOX"
proof -
  have k0: "generateSBox K44_MATRIX 0x63 ! 0 = 0x63"
    by (simp add: generateSBox_nth inverse_table_head affine_eval K44_MATRIX_def)
  have k1: "generateSBox K44_MATRIX 0x63 ! 1 = 0x34"
    by (simp add: generateSBox_nth inverse_table_head affine_eval K44_MATRIX_def)
  have k2: "generateSBox K44_MATRIX 0x63 ! 2 = 0xA5"
    by (simp add: generateSBox_nth inverse_table_head affine_eval K44_MATRIX_def)
  have a0: "generateSBox KAES_MATRIX 0x63 ! 0 = 99"
    by (simp add: generateSBox_nth inverse_table_head affine_eval KAES_MATRIX_def)
  have a1: "generateSBox KAES_MATRIX 0x63 ! 1 = 236"
    by (simp add: generateSBox_nth inverse_table_head affine_eval KAES_MATRIX_def)
  have a2: "generateSBox KAES_MATRIX 0x63 ! 2 = 225"
    by (simp add: generateSBox_nth inverse_table_head affine_eval KAES_MATRIX_def)
  have ne: "generateSBox KAES_MATRIX 0x63 \<noteq> AES_SBOX"
  proof
    assume "generateSBox KAES_MATRIX 0x63 = AES_SBOX"
    then have "generateSBox KAES_MATRIX 0x63 ! 1 = AES_SBOX ! 1"
      by (rule arg_cong)
    then show False
      unfolding a1 aes_sbox_head by simp
  qed
  show ?thesis
    by (simp only: k0 k1 k2 a0 a1 a2 ne aes_sbox_head simp_thms)
qed

section \<open>Claim C5\<close>

text \<open>
  C5. For every 16-byte block, 16-byte key and 256-entry S-box, \<open>encryptBlockWithSteps\<close>
  produces exactly 41 steps in the order: an \<open>initial\<close> snapshot of the input state, an
  \<open>addRoundKey\<close> entry for round 0, for each round 1 to 9 the four entries subBytes,
  shiftRows, mixColumns, addRoundKey, and for round 10 the three entries subBytes,
  shiftRows, addRoundKey. Entry 0 holds the input state, and for every later entry,
  applying its recorded operation (with the active S-box and the key of its round) to the
  state of the entry before reproduces its state.
\<close>

theorem encryptBlockWithSteps_trace:
  assumes "length block = 16" and "length key = 16" and "length sbox = 256"
  shows "length (steps (encryptBlockWithSteps block key sbox)) = 41
    \<and> map (\<lambda>s. (round_no s, operation s)) (steps (encryptBlockWithSteps block key sbox))
        = expectedOrder
    \<and> state (steps (encryptBlockWithSteps block key sbox) ! 0) = bytesToState block
    \<and> (\<forall>i \<in> {1..<41}.
          state (steps (encryptBlockWithSteps block key sbox) ! i)
            = applyOperation (operation (steps (encryptBlockWithSteps block key sbox) ! i)) sbox
                (keyExpansion key sbox ! round_no (steps (encryptBlockWithSteps block key sbox) ! i))
                (state (steps (encryptBlockWithSteps block key sbox) ! (i - 1))))"
proof -
  let ?R = "encryptBlockWithSteps block key sbox"
  note rp = encryptBlockWithSteps_replays [where sbox = sbox and key = key and block = block]
  have len: "length (steps ?R) = 41"
    using arg_cong [OF rp(2), of length] by (simp add: length_expectedOrder)
  have first: "operation (steps ?R ! 0) = Initial"
  proof -
    have "map (\<lambda>s. (round_no s, operation s)) (steps ?R) ! 0 = expectedOrder ! 0"
      by (simp only: rp(2))
    then show ?thesis
      using len by (simp add: expectedOrder_def)
  qed
  have "state (steps ?R ! 0) = bytesToState block"
    using replays_nth [OF rp(1), of 0] len first by (simp add: applyOperation_def)
  moreover have "state (steps ?R ! i)
            = applyOperation (operation (steps ?R ! i)) sbox
                (keyExpansion key sbox ! round_no (steps ?R ! i)) (state (steps ?R ! (i - 1)))"
    if "i \<in> {1..<41}" for i
    using replays_nth [OF rp(1), of i] len that by simp
  ultimately show ?thesis
    using len rp(2) by blast
qed

theorem encryptBlockWithSteps_trace_witness:
  "length (replicate 16 (0 :: byte)) = 16 \<and> length (replicate 16 (1 :: byte)) = 16
   \<and> length AES_SBOX = 256
   \<and> length (steps (encryptBlockWithSteps (replicate 16 0) (replicate 16 1) AES_SBOX)) = 41
   \<and> operation (steps (encryptBlockWithSteps (replicate 16 0) (replicate 16 1) AES_SBOX) ! 4)
       = MixColumns
   \<and> state (steps (encryptBlockWithSteps (replicate 16 0) (replicate 16 1) AES_SBOX) ! 4)
       = mixColumns (state (steps (encryptBlockWithSteps (replicate 16 0) (replicate 16 1) AES_SBOX) ! 3))"
proof -
  let ?R = "encryptBlockWithSteps (replicate 16 0) (replicate 16 1) AES_SBOX"
  have h: "length (replicate 16 (0 :: byte)) = 16" "length (replicate 16 (1 :: byte)) = 16"
    "length AES_SBOX = 256"
    by (simp_all add: AES_SBOX_def)
  note t = encryptBlockWithSteps_trace [OF h]
  from t have len: "length (steps ?R) = 41"
    by (rule conjunct1)
  from t have ord: "map (\<lambda>s. (round_no s, operation s)) (steps ?R) = expectedOrder"
    by blast
  have "map (\<lambda>s. (round_no s, operation s)) (steps ?R) ! 4 = expectedOrder ! 4"
    by (simp only: ord)
  then have op: "operation (steps ?R ! 4) = MixColumns"
    using len by (simp add: expectedOrder_def up19)
  from t have "\<forall>i \<in> {1..<41}.
          state (steps ?R ! i)
            = applyOperation (operation (steps ?R ! i)) AES_SBOX
                (keyExpansion (replicate 16 1) AES_SBOX ! round_no (steps ?R ! i))
                (state (steps ?R ! (i - 1)))"
    by blast
  then have "state (steps ?R ! 4)
            = applyOperation (operation (steps ?R ! 4)) AES_SBOX
                (keyExpansion (replicate 16 1) AES_SBOX ! round_no (steps ?R ! 4))
                (state (steps ?R ! (4 - 1)))"
    by (rule bspec) simp
  then have "state (steps ?R ! 4) = mixColumns (state (steps ?R ! 3))"
    by (simp add: op applyOperation_def)
  with h len op show ?thesis
    by blast
qed

section \<open>Claim C10\<close>

text \<open>
  C10. For every 256-entry S-box, \<open>calculateSAC sbox\<close> equals the arithmetic mean of the
  64 entries of the 8x8 matrix returned by \<open>calculateSACMatrix sbox\<close>.
\<close>

theorem calculateSAC_mean:
  assumes "length sbox = 256"
  shows "calculateSAC sbox = sum_list (concat (calculateSACMatrix sbox)) / 64
   \<and> length (concat (calculateSACMatrix sbox)) = 64
   \<and> length (calculateSACMatrix sbox) = 8
   \<and> list_all (\<lambda>row. length row = 8) (calculateSACMatrix sbox)"
proof -
  let ?f = "sacFlips sbox"
  have sac: "calculateSAC sbox
      = real (sum_list (map (\<lambda>i. sum_list (map (\<lambda>j. ?f i j) [0..<8])) [0..<8])) / 16384"
    by (simp add: calculateSAC_def fold_fold_add_pair del: upt_Suc)
  have "sum_list (concat (calculateSACMatrix sbox))
      = sum_list (map (\<lambda>j. sum_list (map (\<lambda>i. real (?f i j) / 256) [0..<8])) [0..<8])"
    unfolding calculateSACMatrix_def by (rule sum_list_concat_map)
  also have "\<dots> = sum_list (map (\<lambda>j. sum_list (map (\<lambda>i. real (?f i j)) [0..<8])) [0..<8]) / 256"
    by (simp only: sum_list_divide)
  also have "sum_list (map (\<lambda>j. sum_list (map (\<lambda>i. real (?f i j)) [0..<8])) [0..<8])
      = sum_list (map (\<lambda>i. sum_list (map (\<lambda>j. real (?f i j)) [0..<8])) [0..<8])"
    by (rule sum_list_swap)
  also have "\<dots> = real (sum_list (map (\<lambda>i. sum_list (map (\<lambda>j. ?f i j) [0..<8])) [0..<8]))"
    by (simp only: real_sum_list)
  finally have mat: "sum_list (concat (calculateSACMatrix sbox)) / 64
      = real (sum_list (map (\<lambda>i. sum_list (map (\<lambda>j. ?f i j) [0..<8])) [0..<8])) / 16384"
    by simp
  have len: "length (concat (calculateSACMatrix sbox)) = 64"
    by (simp add: calculateSACMatrix_def length_concat comp_def sum_list_triv del: upt_Suc)
  show ?thesis
    by (simp add: sac mat len) (simp add: calculateSACMatrix_def list_all_iff)
qed

theorem calculateSAC_mean_witness:
  "length AES_SBOX = 256
   \<and> calculateSAC AES_SBOX = sum_list (concat (calculateSACMatrix AES_SBOX)) / 64
   \<and> length (concat (calculateSACMatrix AES_SBOX)) = 64"
proof -
  have h: "length AES_SBOX = 256"
    by (simp add: AES_SBOX_def)
  from calculateSAC_mean [OF h] h show ?thesis
    by blast
qed

section \<open>Claim C4\<close>

text \<open>
  C4. \<open>calculateLAP\<close> is described as the maximum of the bias over every nonzero input
  mask and every nonzero output mask. The loop over the input mask starts at 0, and on the
  all-zero table the input mask 0 alone reaches the bias \<open>1/2\<close>: \<open>calculateLAP\<close>
  returns \<open>1/2\<close> there, while the maximum over the nonzero masks stays below \<open>1/2\<close>.
\<close>

theorem calculateLAP_counts_zero_input_mask:
  "calculateLAP (replicate 256 0) = 1 / 2 \<and> lapOverNonzeroMasks (replicate 256 0) < 1 / 2"
proof -
  have "lapBias zeroBox 0 1 = 1 / 2"
    by (simp add: lapBias_def lapCount_zeroBox_0)
  moreover have "lapBias zeroBox 0 1 \<le> calculateLAP zeroBox"
    by (rule calculateLAP_ge) simp_all
  ultimately have a: "calculateLAP zeroBox = 1 / 2"
    using calculateLAP_le_half [of zeroBox] by simp
  have "lapBias zeroBox a b < 1 / 2" if "a \<in> set [1..<256]" for a b
    using that by (intro lapBias_lt_half lapCount_zeroBox_pos lapCount_zeroBox_less) simp_all
  then have b: "lapOverNonzeroMasks zeroBox < 1 / 2"
    unfolding lapOverNonzeroMasks_def
    by (subst Max_less_iff) (auto simp del: upt_Suc set_upt)
  from a b show ?thesis
    by (simp only: zeroBox_def)
qed

section \<open>Claim C9\<close>

lemma canonicalKey_long: "16 \<le> length k \<Longrightarrow> canonicalKey (k @ extra) = canonicalKey k"
  by (simp add: canonicalKey_def)

lemma canonicalKey_nul:
  "length k + n \<le> 16 \<Longrightarrow> canonicalKey (k @ replicate n (CHR 0x00)) = canonicalKey k"
  by (simp add: canonicalKey_def replicate_add [symmetric])

lemma length_canonicalKey: "length (canonicalKey k) = 16"
  by (simp add: canonicalKey_def)

text \<open>
  C9. \<open>encrypt\<close> and \<open>decrypt\<close> read the key string only through its canonical form:
  the string filled with NUL characters to 16 characters and cut to its first 16. Two key
  strings with the same canonical form give the same ciphertext and the same decryption
  result; a key of at least 16 characters with more characters appended, and a key with
  NUL characters appended up to 16 characters, have the canonical form of the key.
\<close>

theorem key_canonical_form:
  "length (canonicalKey k1) = 16
   \<and> (canonicalKey k1 = canonicalKey k2 \<longrightarrow>
        encrypt encode plaintext k1 sbox = encrypt encode plaintext k2 sbox
        \<and> decrypt encode decode cipherBytes k1 sbox = decrypt encode decode cipherBytes k2 sbox)
   \<and> (16 \<le> length k1 \<longrightarrow> canonicalKey (k1 @ extra) = canonicalKey k1)
   \<and> (length k1 + n \<le> 16 \<longrightarrow> canonicalKey (k1 @ replicate n (CHR 0x00)) = canonicalKey k1)"
  by (simp add: encrypt_def decrypt_def canonicalKey_long canonicalKey_nul length_canonicalKey)

theorem key_canonical_form_witness:
  "canonicalKey ''secret'' = canonicalKey (''secret'' @ replicate 3 (CHR 0x00))
   \<and> encrypt (map (\<lambda>c. word_of_nat (of_char c))) ''attack at dawn'' ''secret'' AES_SBOX
       = encrypt (map (\<lambda>c. word_of_nat (of_char c))) ''attack at dawn''
           (''secret'' @ replicate 3 (CHR 0x00)) AES_SBOX
   \<and> decrypt (map (\<lambda>c. word_of_nat (of_char c))) (map (\<lambda>b. char_of (unat b))) [] ''secret'' AES_SBOX
       = decrypt (map (\<lambda>c. word_of_nat (of_char c))) (map (\<lambda>b. char_of (unat b))) []
           (''secret'' @ replicate 3 (CHR 0x00)) AES_SBOX
   \<and> 16 \<le> length ''0123456789abcdef''
   \<and> canonicalKey (''0123456789abcdef'' @ ''tail'') = canonicalKey ''0123456789abcdef''
   \<and> length ''secret'' + 3 \<le> (16 :: nat)"
proof -
  let ?enc = "map (\<lambda>c. word_of_nat (of_char c) :: byte)"
  let ?dec = "map (\<lambda>b :: byte. char_of (unat b))"
  have a: "canonicalKey ''secret'' = canonicalKey (''secret'' @ replicate 3 (CHR 0x00))"
    by (simp add: canonicalKey_def eval_nat_numeral)
  have b: "16 \<le> length ''0123456789abcdef''"
    by simp
  have c: "length ''secret'' + 3 \<le> (16 :: nat)"
    by simp
  note t1 = key_canonical_form [where ?k1.0 = "''secret''"
      and ?k2.0 = "''secret'' @ replicate 3 (CHR 0x00)" and encode = ?enc and decode = ?dec
      and plaintext = "''attack at dawn''" and sbox = AES_SBOX and cipherBytes = "[]"
      and extra = "''tail''" and n = 3]
  note t2 = key_canonical_form [where ?k1.0 = "''0123456789abcdef''"
      and ?k2.0 = "''0123456789abcdef''" and encode = ?enc and decode = ?dec
      and plaintext = "''attack at dawn''" and sbox = AES_SBOX and cipherBytes = "[]"
      and extra = "''tail''" and n = 0]
  from t1 a have "encrypt ?enc ''attack at dawn'' ''secret'' AES_SBOX
       = encrypt ?enc ''attack at dawn'' (''secret'' @ replicate 3 (CHR 0x00)) AES_SBOX"
    and "decrypt ?enc ?dec [] ''secret'' AES_SBOX
       = decrypt ?enc ?dec [] (''secret'' @ replicate 3 (CHR 0x00)) AES_SBOX"
    by blast+
  moreover from t2 b
  have "canonicalKey (''0123456789abcdef'' @ ''tail'') = canonicalKey ''0123456789abcdef''"
    by blast
  ultimately show ?thesis
    using a b c by blast
qed

section \<open>Bit grids and packed rows\<close>

lemma bitGrid_nth: "bitGrid w m \<Longrightarrow> i < 8 \<Longrightarrow> bitRow w (m ! i)"
  by (simp add: bitGrid_def list_all_length)

lemma bitGrid_length: "bitGrid w m \<Longrightarrow> length m = 8"
  by (simp add: bitGrid_def)

lemma bitGridI: "length m = 8 \<Longrightarrow> (\<And>i. i < 8 \<Longrightarrow> bitRow w (m ! i)) \<Longrightarrow> bitGrid w m"
  by (simp add: bitGrid_def list_all_length)

lemma bitRow_entry: "bitRow w r \<Longrightarrow> c < w \<Longrightarrow> r ! c \<le> 1"
  by (simp add: bitRow_def list_all_length)

lemma length_swapRows: "length (swapRows m a b) = length m"
  by (simp add: swapRows_def)

lemma swapRows_nth:
  assumes "a < length m" and "b < length m" and "i < length m"
  shows "swapRows m a b ! i = (if i = b then m ! a else if i = a then m ! b else m ! i)"
  using assms by (simp add: swapRows_def nth_list_update)

lemma bitGrid_swapRows:
  assumes "bitGrid w m" and "a < 8" and "b < 8"
  shows "bitGrid w (swapRows m a b)"
proof (rule bitGridI)
  show "length (swapRows m a b) = 8"
    using assms by (simp add: length_swapRows bitGrid_length)
  fix i :: nat
  assume "i < 8"
  then show "bitRow w (swapRows m a b ! i)"
    using assms by (simp add: swapRows_nth bitGrid_length bitGrid_nth)
qed

text \<open>The elimination loop, row by row.\<close>

lemma eliminate_fold: "eliminate w m p col = fold (elimRow w p col) [0..<8] m"
  unfolding eliminate_def elimRow_def ..

lemma eliminate_prefix:
  assumes "length m = 8" and "p < 8" and "n \<le> 8"
  shows "length (fold (elimRow w p col) [0..<n] m) = 8
    \<and> (\<forall>i < 8. fold (elimRow w p col) [0..<n] m ! i
                 = (if i < n then elimResult w p col m i else m ! i))"
  using assms(3)
proof (induction n)
  case 0
  show ?case using assms(1) by simp
next
  case (Suc n)
  define M where "M = fold (elimRow w p col) [0..<n] m"
  from Suc have n: "n < 8" by simp
  with Suc.IH have len: "length M = 8"
    and rows: "\<And>i. i < 8 \<Longrightarrow> M ! i = (if i < n then elimResult w p col m i else m ! i)"
    by (simp_all add: M_def)
  have mn: "M ! n = m ! n"
    using rows [OF n] by simp
  have "M ! p = (if p < n then elimResult w p col m p else m ! p)"
    using rows [OF assms(2)] .
  then have mp: "M ! p = m ! p"
    by (simp add: elimResult_def)
  have step: "fold (elimRow w p col) [0..<Suc n] m = elimRow w p col n M"
    by (simp add: M_def)
  have new: "elimRow w p col n M = M[n := elimResult w p col m n]"
  proof (cases "n \<noteq> p \<and> m ! n ! col = 1")
    case True
    then show ?thesis
      by (simp add: elimRow_def elimResult_def mn mp)
  next
    case False
    then have "elimRow w p col n M = M" "elimResult w p col m n = M ! n"
      by (auto simp add: elimRow_def elimResult_def mn)
    then show ?thesis
      by simp
  qed
  have "length (elimRow w p col n M) = 8"
    unfolding new using len by simp
  moreover have "elimRow w p col n M ! i
      = (if i < Suc n then elimResult w p col m i else m ! i)" if "i < 8" for i
    unfolding new using that len rows [OF that]
    by (cases "i = n") (simp_all add: nth_list_update less_Suc_eq)
  ultimately show ?case
    unfolding step by blast
qed

lemma length_eliminate: "length m = 8 \<Longrightarrow> p < 8 \<Longrightarrow> length (eliminate w m p col) = 8"
  unfolding eliminate_fold using eliminate_prefix [of m p 8 w col] by simp

lemma eliminate_nth:
  "length m = 8 \<Longrightarrow> p < 8 \<Longrightarrow> i < 8 \<Longrightarrow> eliminate w m p col ! i = elimResult w p col m i"
  unfolding eliminate_fold using eliminate_prefix [of m p 8 w col] by simp

lemma bit_packRow: "bit (packRow r off) j \<longleftrightarrow> j < 8 \<and> r ! (off + j) \<noteq> 0"
  unfolding packRow_def by (auto simp add: bit_fold_set)

lemma bit01_xor:
  "a \<le> Suc 0 \<Longrightarrow> b \<le> Suc 0 \<Longrightarrow> (a XOR b \<noteq> 0) = ((a \<noteq> 0) \<noteq> (b \<noteq> (0 :: nat)))"
  by (cases "a = 0"; cases "b = 0") (auto simp add: le_Suc_eq)

lemma bit01_xor_le: "a \<le> Suc 0 \<Longrightarrow> b \<le> Suc 0 \<Longrightarrow> a XOR b \<le> Suc 0"
  by (cases "a = 0"; cases "b = 0") (auto simp add: le_Suc_eq)

lemma bitRow_entry': "bitRow w r \<Longrightarrow> c < w \<Longrightarrow> r ! c \<le> Suc 0"
  using bitRow_entry [of w r c] by simp

lemma bitRow_xor:
  assumes "bitRow w r" and "bitRow w s"
  shows "bitRow w (map (\<lambda>c. r ! c XOR s ! c) [0..<w])"
  using assms by (auto simp add: bitRow_def list_all_length bit01_xor_le)

lemma packRow_xor:
  assumes "bitRow w r" and "bitRow w s" and "off + 8 \<le> w"
  shows "packRow (map (\<lambda>c. r ! c XOR s ! c) [0..<w]) off = packRow r off XOR packRow s off"
proof (rule bit_eqI)
  fix j
  assume "possible_bit TYPE(byte) j"
  show "bit (packRow (map (\<lambda>c. r ! c XOR s ! c) [0..<w]) off) j
      = bit (packRow r off XOR packRow s off) j"
  proof (cases "j < 8")
    case True
    with assms(3) have lt: "off + j < w" by simp
    with assms have "r ! (off + j) \<le> Suc 0" "s ! (off + j) \<le> Suc 0"
      by (simp_all add: bitRow_entry')
    then have "(r ! (off + j) XOR s ! (off + j) \<noteq> 0)
        = ((r ! (off + j) \<noteq> 0) \<noteq> (s ! (off + j) \<noteq> 0))"
      by (rule bit01_xor)
    then show ?thesis
      using lt True by (simp add: bit_packRow bit_xor_iff)
  next
    case False
    then show ?thesis
      by (simp add: bit_packRow bit_xor_iff)
  qed
qed

lemma entry_bit:
  assumes "bitRow w r" and "col < 8" and "8 \<le> w"
  shows "(r ! col = Suc 0) = bit (packRow r 0) col"
proof -
  from assms have "col < w"
    by simp
  with assms(1) have "r ! col \<le> Suc 0"
    by (rule bitRow_entry')
  then show ?thesis
    using assms(2) by (auto simp add: bit_packRow)
qed

lemma length_half: "length (half off m) = length m"
  by (simp add: half_def)

lemma half_nth: "i < length m \<Longrightarrow> half off m ! i = packRow (m ! i) off"
  by (simp add: half_def)

lemma half_swapRows: "half off (swapRows m a b) = wswap (half off m) a b"
  if "a < length m" "b < length m"
  using that by (simp add: half_def swapRows_def wswap_def map_update)

lemma findPivot_wfind:
  assumes "bitGrid w m" and "col < 8" and "8 \<le> w"
  shows "findPivot m start col = wfind (half 0 m) start col"
  unfolding findPivot_def wfind_def
proof (rule find_cong)
  show "[start..<8] = [start..<8]" ..
  fix row
  assume "row \<in> set [start..<8]"
  then have row: "row < 8" by simp
  with assms(1) have "bitRow w (m ! row)"
    by (simp add: bitGrid_nth)
  then show "(m ! row ! col = 1) = bit (half 0 m ! row) col"
    using assms row by (simp add: entry_bit half_nth bitGrid_length)
qed

lemma bitGrid_eliminate:
  assumes "bitGrid w m" and "p < 8"
  shows "bitGrid w (eliminate w m p col)"
proof (rule bitGridI)
  from assms show "length (eliminate w m p col) = 8"
    by (simp add: length_eliminate bitGrid_length)
  fix i :: nat
  assume i: "i < 8"
  with assms have "bitRow w (m ! i)" "bitRow w (m ! p)"
    by (simp_all add: bitGrid_nth)
  then show "bitRow w (eliminate w m p col ! i)"
    using assms i by (simp add: eliminate_nth bitGrid_length elimResult_def bitRow_xor)
qed

lemma bitGrid_gaussStep:
  assumes "bitGrid w m" and "k < 8" and "p < 8"
  shows "bitGrid w (gaussStep w m k col p)"
  unfolding gaussStep_def using assms by (intro bitGrid_eliminate bitGrid_swapRows)

lemma half_eliminate:
  assumes "bitGrid w m" and "k < 8" and "col < 8" and "8 \<le> w" and "off + 8 \<le> w"
  shows "half off (eliminate w m k col) = welim (half 0 m) (half off m) k col"
proof (rule nth_equalityI)
  from assms show "length (half off (eliminate w m k col)) = length (welim (half 0 m) (half off m) k col)"
    by (simp add: length_half length_eliminate bitGrid_length welim_def)
  fix i
  assume "i < length (half off (eliminate w m k col))"
  with assms have i: "i < 8"
    by (simp add: length_half length_eliminate bitGrid_length)
  from assms i have len: "length m = 8" and ri: "bitRow w (m ! i)" and rk: "bitRow w (m ! k)"
    by (simp_all add: bitGrid_length bitGrid_nth)
  have "half off (eliminate w m k col) ! i = packRow (elimResult w k col m i) off"
    using assms i len by (simp add: half_nth length_eliminate eliminate_nth)
  also have "\<dots> = (if i \<noteq> k \<and> bit (packRow (m ! i) 0) col
                    then packRow (m ! i) off XOR packRow (m ! k) off else packRow (m ! i) off)"
    using ri rk assms by (simp add: elimResult_def packRow_xor entry_bit)
  also have "\<dots> = welim (half 0 m) (half off m) k col ! i"
    using i assms(2) len by (simp add: welim_def half_nth)
  finally show "half off (eliminate w m k col) ! i = welim (half 0 m) (half off m) k col ! i" .
qed

lemma half_gaussStep:
  assumes "bitGrid w m" and "k < 8" and "p < 8" and "col < 8" and "8 \<le> w" and "off + 8 \<le> w"
  shows "half off (gaussStep w m k col p) = wstep (half 0 m) (half off m) k col p"
proof -
  have "bitGrid w (swapRows m k p)"
    using assms by (intro bitGrid_swapRows)
  then have "half off (eliminate w (swapRows m k p) k col)
      = welim (half 0 (swapRows m k p)) (half off (swapRows m k p)) k col"
    using assms by (intro half_eliminate)
  then show ?thesis
    using assms by (simp add: gaussStep_def wstep_def half_swapRows bitGrid_length)
qed

lemma find_upt_Some: "find P [a..<b] = Some p \<Longrightarrow> a \<le> p \<and> p < b \<and> P p"
  by (auto simp add: find_Some_iff)

lemma wfind_Some: "wfind L start col = Some p \<Longrightarrow> start \<le> p \<and> p < 8 \<and> bit (L ! p) col"
  unfolding wfind_def by (rule find_upt_Some)

lemma wfind_None: "wfind L start col = None \<Longrightarrow> start \<le> i \<Longrightarrow> i < 8 \<Longrightarrow> \<not> bit (L ! i) col"
  unfolding wfind_def by (auto simp add: find_None_iff)

lemma unat_low_bit: "unat (drop_bit j (x :: byte) AND 1) = (if bit x j then 1 else 0)"
proof -
  have "drop_bit j x AND 1 = of_bool (bit x j)"
    by (simp add: and_one_eq mod_2_eq_odd bit_iff_odd_drop_bit)
  then show ?thesis
    by (cases "bit x j") simp_all
qed

lemma bitRow_unpack:
  "bitRow 8 (map (\<lambda>j. unat (drop_bit j (x :: byte) AND 1)) [0..<8])"
  by (auto simp add: bitRow_def list_all_iff unat_low_bit simp del: upt_Suc)

lemma bitRow_augment:
  "bitRow 16 (map (\<lambda>j. unat (drop_bit j (x :: byte) AND 1)) [0..<8]
               @ map (\<lambda>j. if i = j then 1 else 0) [0..<8])"
  by (auto simp add: bitRow_def list_all_iff unat_low_bit simp del: upt_Suc)

lemma bitGrid_unpackMatrix: "bitGrid 8 (unpackMatrix A)"
  by (rule bitGridI) (simp_all add: unpackMatrix_def bitRow_unpack del: upt_Suc)

lemma bitGrid_augmentMatrix: "bitGrid 16 (augmentMatrix A)"
  by (rule bitGridI) (simp_all add: augmentMatrix_def bitRow_augment del: upt_Suc)

lemma packRow_unpack:
  "packRow (map (\<lambda>j. unat (drop_bit j (x :: byte) AND 1)) [0..<8] @ rest) 0 = x"
proof (rule bit_eqI)
  fix j
  assume "possible_bit TYPE(byte) j"
  then have "j < 8" by simp
  then show "bit (packRow (map (\<lambda>j. unat (drop_bit j x AND 1)) [0..<8] @ rest) 0) j = bit x j"
    by (simp add: bit_packRow nth_append unat_low_bit del: upt_Suc)
qed

lemma packRow_identity:
  assumes "i < 8"
  shows "packRow (map (\<lambda>j. unat (drop_bit j (x :: byte) AND 1)) [0..<8]
               @ map (\<lambda>j. if i = j then 1 else 0) [0..<8]) 8 = 2 ^ i"
proof (rule bit_eqI)
  fix j
  assume "possible_bit TYPE(byte) j"
  then have "j < 8" by simp
  then show "bit (packRow (map (\<lambda>j. unat (drop_bit j x AND 1)) [0..<8]
               @ map (\<lambda>j. if i = j then 1 else 0) [0..<8]) 8) j = bit (2 ^ i :: byte) j"
    using assms by (auto simp add: bit_packRow nth_append bit_exp_iff simp del: upt_Suc)
qed

lemma half_unpackMatrix: "length A = 8 \<Longrightarrow> half 0 (unpackMatrix A) = A"
  by (rule nth_equalityI)
    (simp_all add: half_def unpackMatrix_def packRow_unpack [where rest = "[]", simplified]
      del: upt_Suc)

lemma half0_augmentMatrix: "length A = 8 \<Longrightarrow> half 0 (augmentMatrix A) = A"
  by (rule nth_equalityI) (simp_all add: half_def augmentMatrix_def packRow_unpack del: upt_Suc)

lemma half8_augmentMatrix: "half 8 (augmentMatrix A) = identityRows"
  by (rule nth_equalityI)
    (simp_all add: half_def augmentMatrix_def identityRows_def packRow_identity del: upt_Suc)

text \<open>The column loop of \<open>invertMatrix\<close> on packed rows.\<close>

lemma invertColumns_winvert:
  assumes "bitGrid 16 aug" and "set cols \<subseteq> {0..<8}"
  shows "case invertColumns cols aug of
           None \<Rightarrow> winvert cols (half 0 aug, half 8 aug) = None
         | Some a \<Rightarrow> bitGrid 16 a \<and> winvert cols (half 0 aug, half 8 aug) = Some (half 0 a, half 8 a)"
  using assms
proof (induction cols arbitrary: aug)
  case Nil
  then show ?case by simp
next
  case (Cons col cols)
  then have col: "col < 8" and cols: "set cols \<subseteq> {0..<8}"
    by simp_all
  have fp: "findPivot aug col col = wfind (half 0 aug) col col"
    by (rule findPivot_wfind [OF Cons.prems(1) col]) simp
  show ?case
  proof (cases "wfind (half 0 aug) col col")
    case None
    then show ?thesis by (simp add: fp)
  next
    case (Some p)
    then have p: "p < 8"
      using wfind_Some by blast
    let ?aug = "gaussStep 16 aug col col p"
    have g: "bitGrid 16 ?aug"
      using Cons.prems(1) col p by (intro bitGrid_gaussStep)
    have h0: "half 0 ?aug = wstep (half 0 aug) (half 0 aug) col col p"
      using Cons.prems(1) col p by (intro half_gaussStep) simp_all
    have h8: "half 8 ?aug = wstep (half 0 aug) (half 8 aug) col col p"
      using Cons.prems(1) col p by (intro half_gaussStep) simp_all
    from Cons.IH [OF g cols] show ?thesis
      by (auto simp add: fp Some h0 h8 gaussStep_def [symmetric] split: option.splits)
  qed
qed

lemma invertMatrix_winvert:
  assumes "length A = 8"
  shows "invertMatrix A = map_option snd (winvert [0..<8] (A, identityRows))"
proof -
  have "case invertColumns [0..<8] (augmentMatrix A) of
           None \<Rightarrow> winvert [0..<8] (A, identityRows) = None
         | Some a \<Rightarrow> bitGrid 16 a \<and> winvert [0..<8] (A, identityRows) = Some (half 0 a, half 8 a)"
    using invertColumns_winvert [OF bitGrid_augmentMatrix, of "[0..<8]" A]
    unfolding half0_augmentMatrix [OF assms] half8_augmentMatrix
    by (simp del: upt_Suc)
  moreover have "map (\<lambda>i. packRow (a ! i) 8) [0..<8] = half 8 a" if "bitGrid 16 a" for a
    using that by (intro nth_equalityI) (simp_all add: half_def bitGrid_length del: upt_Suc)
  ultimately show ?thesis
    by (auto simp add: invertMatrix_def split: option.splits simp del: upt_Suc)
qed

text \<open>The column loop of \<open>isMatrixValid\<close> on packed rows.\<close>

lemma rank_loop_wrank:
  assumes "bitGrid 8 m" and "set cols \<subseteq> {0..<8}" and "rank + length cols \<le> 8"
  shows "case fold (\<lambda>col (m, rank).
                    case findPivot m rank col of
                      None \<Rightarrow> (m, rank)
                    | Some pivotRow \<Rightarrow> (eliminate 8 (swapRows m rank pivotRow) rank col, rank + 1))
                 cols (m, rank) of
           (m', rank') \<Rightarrow> fold wrankStep cols (half 0 m, rank) = (half 0 m', rank')"
  using assms
proof (induction cols arbitrary: m rank)
  case Nil
  then show ?case by simp
next
  case (Cons col cols)
  then have col: "col < 8" and cols: "set cols \<subseteq> {0..<8}" and rank: "rank < 8"
    and rest: "rank + length cols \<le> 8" "Suc rank + length cols \<le> 8"
    by simp_all
  have fp: "findPivot m rank col = wfind (half 0 m) rank col"
    by (rule findPivot_wfind [OF Cons.prems(1) col]) simp
  show ?case
  proof (cases "wfind (half 0 m) rank col")
    case None
    with Cons.IH [OF Cons.prems(1) cols rest(1)] show ?thesis
      by (auto simp add: fp wrankStep_def split: prod.splits)
  next
    case (Some p)
    then have p: "p < 8"
      using wfind_Some by blast
    let ?m = "gaussStep 8 m rank col p"
    have g: "bitGrid 8 ?m"
      using Cons.prems(1) rank p by (intro bitGrid_gaussStep)
    have h0: "half 0 ?m = wstep (half 0 m) (half 0 m) rank col p"
      using Cons.prems(1) col rank p by (intro half_gaussStep) simp_all
    from Cons.IH [OF g cols rest(2)] show ?thesis
      by (auto simp add: fp Some h0 wrankStep_def gaussStep_def [symmetric] split: prod.splits)
  qed
qed

lemma isMatrixValid_wrank:
  assumes "length A = 8"
  shows "isMatrixValid A = (snd (fold wrankStep [0..<8] (A, 0)) = 8)"
  using rank_loop_wrank [OF bitGrid_unpackMatrix, of "[0..<8]" 0 A]
  unfolding half_unpackMatrix [OF assms]
  by (simp add: isMatrixValid_def split: prod.splits del: upt_Suc)

section \<open>Row vectors, products and spans\<close>

lemma vecmat_fold_acc:
  "fold (\<lambda>j acc. if bit r j then acc XOR A ! j else acc) js (a :: byte)
     = a XOR fold (\<lambda>j acc. if bit r j then acc XOR A ! j else acc) js 0"
proof (induction js arbitrary: a)
  case Nil
  then show ?case by simp
next
  case (Cons j js)
  show ?case
    using Cons.IH [of "a XOR A ! j"] Cons.IH [of "A ! j"] Cons.IH [of a]
    by (simp add: xor.assoc)
qed

lemma vecsum_Nil: "vecsum r A [] = 0"
  by (simp add: vecsum_def)

lemma vecsum_Cons: "vecsum r A (j # js) = sel (bit r j) (A ! j) XOR vecsum r A js"
  unfolding vecsum_def using vecmat_fold_acc [of r A js "A ! j"] by (simp add: sel_def)

lemma vecmat_vecsum: "vecmat r A = vecsum r A [0..<8]"
  by (simp add: vecmat_def vecsum_def)

lemma vecsum_xor: "vecsum (r XOR s) A js = vecsum r A js XOR vecsum s A js"
  by (induction js) (auto simp add: vecsum_Nil vecsum_Cons bit_xor_iff sel_def xor_ac)

lemma vecmat_xor: "vecmat (r XOR s) A = vecmat r A XOR vecmat s A"
  by (simp add: vecmat_vecsum vecsum_xor)

lemma vecsum_zero: "vecsum 0 A js = 0"
  by (induction js) (simp_all add: vecsum_Nil vecsum_Cons sel_def)

lemma vecmat_zero: "vecmat 0 A = 0"
  by (simp add: vecmat_vecsum vecsum_zero)

lemma vecsum_unit:
  "distinct js \<Longrightarrow> vecsum (2 ^ c) A js = (if c \<in> set js \<and> c < 8 then A ! c else 0)"
  by (induction js) (auto simp add: vecsum_Nil vecsum_Cons sel_def bit_exp_iff)

lemma vecmat_unit: "c < 8 \<Longrightarrow> vecmat (2 ^ c) A = A ! c"
  by (simp add: vecmat_vecsum vecsum_unit)

lemma bit_vecsum: "bit (vecsum r A js) k = xsum (\<lambda>j. bit r j \<and> bit (A ! j) k) js"
  by (induction js) (auto simp add: vecsum_Nil vecsum_Cons xsum_Nil xsum_Cons bit_xor_iff sel_def)

lemma xsum_single:
  "distinct js \<Longrightarrow> xsum (\<lambda>j. j = i \<and> f j) js = (i \<in> set js \<and> f i)"
  by (induction js) (auto simp add: xsum_Nil xsum_Cons)

lemma xsum_and: "xsum (\<lambda>j. f j \<and> b) js = (xsum f js \<and> b)"
  by (induction js) (auto simp add: xsum_Nil xsum_Cons)

lemma vecmat_identity: "vecmat r identityRows = r"
proof (rule bit_eqI)
  fix k
  assume "possible_bit TYPE(byte) k"
  then have k: "k < 8" by simp
  have "bit (vecmat r identityRows) k = xsum (\<lambda>j. bit r j \<and> bit (identityRows ! j) k) [0..<8]"
    by (simp add: vecmat_vecsum bit_vecsum)
  also have "\<dots> = xsum (\<lambda>j. j = k \<and> bit r j) [0..<8]"
    by (rule xsum_cong) (auto simp add: identityRows_def bit_exp_iff simp del: upt_Suc)
  also have "\<dots> = bit r k"
    using k by (simp add: xsum_single del: upt_Suc)
  finally show "bit (vecmat r identityRows) k = bit r k" .
qed

lemma vecsum_assoc:
  assumes "length B = 8" and "set js \<subseteq> {0..<8}"
  shows "vecsum r (map (\<lambda>s. vecmat s A) B) js = vecmat (vecsum r B js) A"
  using assms(2)
  by (induction js) (auto simp add: vecsum_Nil vecsum_Cons vecmat_zero vecmat_xor sel_def assms(1))

lemma vecmat_assoc:
  "length B = 8 \<Longrightarrow> vecmat r (map (\<lambda>s. vecmat s A) B) = vecmat (vecmat r B) A"
  by (simp add: vecmat_vecsum [of r] vecsum_assoc del: upt_Suc)

text \<open>The inner product with a fixed vector is linear.\<close>

lemma dot_xor: "dot (a XOR b) x = (dot a x \<noteq> dot b x)"
proof -
  have "dot (a XOR b) x = xsum (\<lambda>j. (bit a j \<and> bit x j) \<noteq> (bit b j \<and> bit x j)) [0..<8]"
    unfolding dot_def by (rule xsum_cong) (auto simp add: bit_xor_iff)
  also have "\<dots> = (dot a x \<noteq> dot b x)"
    by (simp only: xsum_xor dot_def)
  finally show ?thesis .
qed

lemma dot_zero: "dot 0 x = False"
  by (simp add: dot_def xsum_False del: upt_Suc)

lemma dot_vecsum: "dot (vecsum r A js) x = xsum (\<lambda>j. bit r j \<and> dot (A ! j) x) js"
  by (induction js)
    (auto simp add: vecsum_Nil vecsum_Cons xsum_Nil xsum_Cons dot_zero dot_xor sel_def)

lemma dot_unit: "k < 8 \<Longrightarrow> dot (2 ^ k) x = bit x k"
proof -
  assume k: "k < 8"
  have "dot (2 ^ k) x = xsum (\<lambda>j. j = k \<and> bit x j) [0..<8]"
    unfolding dot_def by (rule xsum_cong) (auto simp add: bit_exp_iff)
  then show ?thesis
    using k by (simp add: xsum_single del: upt_Suc)
qed

lemma affineProduct_vecmat:
  assumes "length L = 8"
  shows "affineProduct x (map (\<lambda>s. vecmat s A) L) = affineProduct (affineProduct x A) L"
proof (rule bit_eqI)
  fix k
  assume "possible_bit TYPE(byte) k"
  then have k: "k < 8" by simp
  have "dot (vecmat (L ! k) A) x = xsum (\<lambda>j. bit (L ! k) j \<and> dot (A ! j) x) [0..<8]"
    by (simp add: vecmat_vecsum dot_vecsum)
  also have "\<dots> = xsum (\<lambda>j. bit (L ! k) j \<and> bit (affineProduct x A) j) [0..<8]"
    by (rule xsum_cong) (simp add: bit_affineProduct)
  also have "\<dots> = dot (L ! k) (affineProduct x A)"
    by (simp add: dot_def)
  finally show "bit (affineProduct x (map (\<lambda>s. vecmat s A) L)) k
      = bit (affineProduct (affineProduct x A) L) k"
    using k assms by (simp add: bit_affineProduct)
qed

lemma affineProduct_identity: "affineProduct x identityRows = x"
  by (rule bit_eqI) (simp add: bit_affineProduct identityRows_def dot_unit del: upt_Suc)

text \<open>Spans.\<close>

lemma span_base: "r \<in> S \<Longrightarrow> r \<in> span S"
  using span.add [OF span.zero, of r S] by simp

lemma span_xor: "v \<in> span S \<Longrightarrow> w \<in> span S \<Longrightarrow> v XOR w \<in> span S"
proof (induction rule: span.induct)
  case zero
  then show ?case by simp
next
  case (add u r)
  from add.IH [OF add.prems] add.hyps(2) have "(u XOR w) XOR r \<in> span S"
    by (rule span.add)
  then show ?case
    by (simp add: xor_ac)
qed

lemma span_subset: "v \<in> span S \<Longrightarrow> S \<subseteq> span T \<Longrightarrow> v \<in> span T"
proof (induction rule: span.induct)
  case zero
  show ?case by (rule span.zero)
next
  case (add u r)
  then show ?case
    by (intro span_xor) auto
qed

lemma span_induct_linear:
  assumes "v \<in> span S" and "Q 0" and "\<And>a b. Q a \<Longrightarrow> Q b \<Longrightarrow> Q (a XOR b)"
    and "\<And>r. r \<in> S \<Longrightarrow> Q r"
  shows "Q v"
  using assms(1) by (induction rule: span.induct) (simp_all add: assms)

section \<open>The elimination on packed rows\<close>

lemma length_wswap: "length (wswap xs a b) = length xs"
  by (simp add: wswap_def)

lemma wswap_nth:
  assumes "length xs = 8" and "k < 8" and "p < 8" and "i < 8"
  shows "wswap xs k p ! i = xs ! swapIndex k p i"
  using assms by (simp add: wswap_def swapIndex_def nth_list_update)

lemma swapIndex_less: "k < 8 \<Longrightarrow> p < 8 \<Longrightarrow> i < 8 \<Longrightarrow> swapIndex k p i < 8"
  by (simp add: swapIndex_def)

lemma swapIndex_invol: "swapIndex k p (swapIndex k p i) = i"
  by (simp add: swapIndex_def)

lemma swapIndex_pivot: "swapIndex k p k = p"
  by (simp add: swapIndex_def)

lemma length_welim: "length (welim ctl xs k col) = 8"
  by (simp add: welim_def)

lemma length_wstep: "length (wstep L X k col p) = 8"
  by (simp add: wstep_def length_welim)

lemma wstep_nth:
  assumes "length L = 8" and "length X = 8" and "k < 8" and "p < 8" and "i < 8"
  shows "wstep L X k col p ! i =
     (if i \<noteq> k \<and> bit (L ! swapIndex k p i) col
      then X ! swapIndex k p i XOR X ! p else X ! swapIndex k p i)"
  using assms by (simp add: wstep_def welim_def wswap_nth swapIndex_pivot del: upt_Suc)

lemma rowsProduct_wstep:
  assumes "rowsProduct A L R" and "length L = 8" and "length R = 8" and "k < 8" and "p < 8"
  shows "rowsProduct A (wstep L L k col p) (wstep L R k col p)"
  unfolding rowsProduct_def
proof (intro allI impI)
  fix i :: nat
  assume i: "i < 8"
  have s: "swapIndex k p i < 8"
    using assms i by (simp add: swapIndex_less)
  from assms(1) s assms(5) have "L ! swapIndex k p i = vecmat (R ! swapIndex k p i) A"
    and "L ! p = vecmat (R ! p) A"
    by (simp_all add: rowsProduct_def)
  then show "wstep L L k col p ! i = vecmat (wstep L R k col p ! i) A"
    using assms i by (simp add: wstep_nth vecmat_xor)
qed

lemma unitColumns_wstep:
  assumes "unitColumns c L" and "length L = 8" and "c < 8" and "c \<le> p" and "p < 8"
    and "bit (L ! p) c"
  shows "unitColumns (Suc c) (wstep L L c c p)"
  unfolding unitColumns_def
proof (intro allI impI)
  fix i j :: nat
  assume i: "i < 8" and j: "j < Suc c"
  let ?s = "swapIndex c p i"
  have s: "?s < 8"
    using assms i by (simp add: swapIndex_less)
  have row: "wstep L L c c p ! i = (if i \<noteq> c \<and> bit (L ! ?s) c then L ! ?s XOR L ! p else L ! ?s)"
    using assms i by (simp add: wstep_nth)
  show "bit (wstep L L c c p ! i) j \<longleftrightarrow> i = j"
  proof (cases "j = c")
    case True
    show ?thesis
    proof (cases "i = c")
      case True
      with row have "wstep L L c c p ! i = L ! p"
        by (simp add: swapIndex_pivot)
      with True \<open>j = c\<close> assms(6) show ?thesis
        by simp
    next
      case False
      with row have "wstep L L c c p ! i = (if bit (L ! ?s) c then L ! ?s XOR L ! p else L ! ?s)"
        by simp
      with False \<open>j = c\<close> assms(6) show ?thesis
        by (simp add: bit_xor_iff)
    qed
  next
    case False
    with j have jc: "j < c" by simp
    with assms(1) s assms(5) have a: "bit (L ! ?s) j \<longleftrightarrow> ?s = j" and b: "bit (L ! p) j \<longleftrightarrow> p = j"
      by (simp_all add: unitColumns_def)
    from jc assms(4) have "(?s = j) = (i = j)"
      by (auto simp add: swapIndex_def)
    with a b jc assms(4) show ?thesis
      by (simp add: row bit_xor_iff)
  qed
qed

lemma spansUnits_wstep:
  assumes "spansUnits X" and "length L = 8" and "length X = 8" and "k < 8" and "p < 8"
  shows "spansUnits (wstep L X k col p)"
proof -
  let ?X = "wstep L X k col p"
  have len: "length ?X = 8"
    by (rule length_wstep)
  have mem: "?X ! i \<in> span (set ?X)" if "i < 8" for i
    using that len by (intro span_base) (metis nth_mem)
  have piv: "X ! p \<in> span (set ?X)"
  proof -
    have "?X ! k = X ! p"
      using assms by (simp add: wstep_nth swapIndex_pivot)
    with mem [OF assms(4)] show ?thesis
      by simp
  qed
  have "set X \<subseteq> span (set ?X)"
  proof
    fix x
    assume "x \<in> set X"
    then obtain j where j: "j < 8" and x: "x = X ! j"
      using assms(3) by (metis in_set_conv_nth)
    let ?i = "swapIndex k p j"
    have i: "?i < 8"
      using assms j by (simp add: swapIndex_less)
    have row: "?X ! ?i = (if ?i \<noteq> k \<and> bit (L ! j) col then X ! j XOR X ! p else X ! j)"
      by (simp only: wstep_nth [OF assms(2,3,4,5) i] swapIndex_invol)
    show "x \<in> span (set ?X)"
    proof (cases "?i \<noteq> k \<and> bit (L ! j) col")
      case True
      with row have "?X ! ?i XOR X ! p = X ! j"
        by (simp add: xor.assoc)
      moreover have "?X ! ?i XOR X ! p \<in> span (set ?X)"
        using mem [OF i] piv by (rule span_xor)
      ultimately show ?thesis
        by (simp add: x)
    next
      case False
      with row have "?X ! ?i = X ! j"
        by auto
      with mem [OF i] show ?thesis
        by (simp add: x)
    qed
  qed
  then show ?thesis
    using assms(1) unfolding spansUnits_def by (blast intro: span_subset)
qed

text \<open>A column without a pivot leaves a unit vector outside the span of the rows.\<close>

lemma pivot_exists:
  assumes "unitColumns c L" and "spansUnits L" and "length L = 8" and "c < 8"
  shows "wfind L c c \<noteq> None"
proof
  assume none: "wfind L c c = None"
  define Q where "Q v \<longleftrightarrow> bit v c = xsum (\<lambda>j. bit v j \<and> bit (L ! j) c) [0..<c]" for v :: byte
  have Q0: "Q 0"
    by (simp add: Q_def xsum_False)
  have Qx: "Q (a XOR b)" if "Q a" "Q b" for a b
  proof -
    have "xsum (\<lambda>j. bit (a XOR b) j \<and> bit (L ! j) c) [0..<c]
        = xsum (\<lambda>j. (bit a j \<and> bit (L ! j) c) \<noteq> (bit b j \<and> bit (L ! j) c)) [0..<c]"
      by (rule xsum_cong) (auto simp add: bit_xor_iff)
    also have "\<dots> = (xsum (\<lambda>j. bit a j \<and> bit (L ! j) c) [0..<c]
        \<noteq> xsum (\<lambda>j. bit b j \<and> bit (L ! j) c) [0..<c])"
      by (rule xsum_xor)
    finally show ?thesis
      using that by (simp add: Q_def bit_xor_iff)
  qed
  have Qr: "Q r" if "r \<in> set L" for r
  proof -
    from that obtain i where i: "i < 8" and r: "r = L ! i"
      using assms(3) by (metis in_set_conv_nth)
    have "xsum (\<lambda>j. bit (L ! i) j \<and> bit (L ! j) c) [0..<c]
        = xsum (\<lambda>j. j = i \<and> bit (L ! j) c) [0..<c]"
    proof (rule xsum_cong)
      fix j
      assume "j \<in> set [0..<c]"
      then have "j < c" by simp
      with assms(1) i have "bit (L ! i) j \<longleftrightarrow> i = j"
        by (simp add: unitColumns_def)
      then show "(bit (L ! i) j \<and> bit (L ! j) c) = (j = i \<and> bit (L ! j) c)"
        by auto
    qed
    also have "\<dots> = (i < c \<and> bit (L ! i) c)"
      by (simp add: xsum_single)
    also have "\<dots> = bit (L ! i) c"
      using wfind_None [OF none, of i] i by (cases "c \<le> i") auto
    finally show ?thesis
      by (simp add: Q_def r)
  qed
  from assms(2) assms(4) have "2 ^ c \<in> span (set L)"
    by (simp add: spansUnits_def)
  then have "Q (2 ^ c)"
    using Q0 Qx Qr by (rule span_induct_linear)
  moreover have "xsum (\<lambda>j. bit (2 ^ c :: byte) j \<and> bit (L ! j) c) [0..<c] = xsum (\<lambda>j. False) [0..<c]"
    by (rule xsum_cong) (simp add: bit_exp_iff)
  ultimately show False
    using assms(4) by (simp add: Q_def xsum_False bit_exp_iff)
qed

section \<open>The column loops on packed rows\<close>

lemma upt_8_Cons: "c < 8 \<Longrightarrow> [c..<8] = c # [Suc c..<8]"
  by (rule upt_conv_Cons)

lemma winvert_result:
  assumes "8 - c = n" and "c \<le> 8" and "length L = 8" and "length R = 8"
    and "rowsProduct A L R" and "unitColumns c L"
    and "winvert [c..<8] (L, R) = Some (L', R')"
  shows "length L' = 8 \<and> length R' = 8 \<and> rowsProduct A L' R' \<and> unitColumns 8 L'
    \<and> (spansUnits R \<longrightarrow> spansUnits R')"
  using assms
proof (induction n arbitrary: c L R)
  case 0
  then have "c = 8" by simp
  with 0 show ?case by simp
next
  case (Suc n)
  then have c: "c < 8" by simp
  from Suc.prems(7) obtain p where p: "wfind L c c = Some p"
    and rest: "winvert [Suc c..<8] (wstep L L c c p, wstep L R c c p) = Some (L', R')"
    by (auto simp add: upt_8_Cons [OF c] split: option.splits)
  from wfind_Some [OF p] have pp: "c \<le> p" "p < 8" "bit (L ! p) c"
    by simp_all
  have "length L' = 8 \<and> length R' = 8 \<and> rowsProduct A L' R' \<and> unitColumns 8 L'
    \<and> (spansUnits (wstep L R c c p) \<longrightarrow> spansUnits R')"
  proof (rule Suc.IH [OF _ _ _ _ _ _ rest])
    show "8 - Suc c = n" using Suc.prems(1) by simp
    show "Suc c \<le> 8" using c by simp
    show "length (wstep L L c c p) = 8" "length (wstep L R c c p) = 8"
      by (rule length_wstep)+
    show "rowsProduct A (wstep L L c c p) (wstep L R c c p)"
      using Suc.prems(5,3,4) c pp(2) by (rule rowsProduct_wstep)
    show "unitColumns (Suc c) (wstep L L c c p)"
      using Suc.prems(6,3) c pp by (rule unitColumns_wstep)
  qed
  moreover have "spansUnits (wstep L R c c p)" if "spansUnits R"
    using that Suc.prems(3,4) c pp(2) by (rule spansUnits_wstep)
  ultimately show ?case
    by blast
qed

lemma winvert_succeeds:
  assumes "8 - c = n" and "c \<le> 8" and "length L = 8" and "unitColumns c L" and "spansUnits L"
  shows "winvert [c..<8] (L, R) \<noteq> None"
  using assms
proof (induction n arbitrary: c L R)
  case 0
  then have "c = 8" by simp
  then show ?case by simp
next
  case (Suc n)
  then have c: "c < 8" by simp
  from pivot_exists [OF Suc.prems(4,5,3) c] obtain p where p: "wfind L c c = Some p"
    by auto
  from wfind_Some [OF p] have pp: "c \<le> p" "p < 8" "bit (L ! p) c"
    by simp_all
  have "winvert [Suc c..<8] (wstep L L c c p, wstep L R c c p) \<noteq> None"
  proof (rule Suc.IH)
    show "8 - Suc c = n" using Suc.prems(1) by simp
    show "Suc c \<le> 8" using c by simp
    show "length (wstep L L c c p) = 8"
      by (rule length_wstep)
    show "unitColumns (Suc c) (wstep L L c c p)"
      using Suc.prems(4,3) c pp by (rule unitColumns_wstep)
    show "spansUnits (wstep L L c c p)"
      using Suc.prems(5,3,3) c pp(2) by (rule spansUnits_wstep)
  qed
  then show ?case
    by (simp add: upt_8_Cons [OF c] p)
qed

text \<open>The rank loop reaches 8 exactly when every column has a pivot.\<close>

lemma wrankStep_None: "wfind L r col = None \<Longrightarrow> wrankStep col (L, r) = (L, r)"
  by (simp add: wrankStep_def)

lemma wrankStep_Some:
  "wfind L r col = Some p \<Longrightarrow> wrankStep col (L, r) = (wstep L L r col p, Suc r)"
  by (simp add: wrankStep_def)

lemma wrank_le: "snd (fold wrankStep cols (L, r)) \<le> r + length cols"
proof (induction cols arbitrary: L r)
  case Nil
  then show ?case by simp
next
  case (Cons col cols)
  show ?case
  proof (cases "wfind L r col")
    case None
    with Cons.IH [of L r] show ?thesis
      by (simp add: wrankStep_None)
  next
    case (Some p)
    with Cons.IH [of "wstep L L r col p" "Suc r"] show ?thesis
      by (simp add: wrankStep_Some)
  qed
qed

lemma wrank_winvert:
  assumes "8 - c = n" and "c \<le> 8"
  shows "(snd (fold wrankStep [c..<8] (L, c)) = 8) = (winvert [c..<8] (L, R) \<noteq> None)"
  using assms
proof (induction n arbitrary: c L R)
  case 0
  then have "c = 8" by simp
  then show ?case by simp
next
  case (Suc n)
  then have c: "c < 8" by simp
  show ?case
  proof (cases "wfind L c c")
    case None
    have "snd (fold wrankStep [Suc c..<8] (L, c)) \<le> c + length [Suc c..<8]"
      by (rule wrank_le)
    with c have "snd (fold wrankStep [Suc c..<8] (L, c)) \<noteq> 8"
      by simp
    with None show ?thesis
      by (simp add: upt_8_Cons [OF c] wrankStep_None)
  next
    case (Some p)
    have "(snd (fold wrankStep [Suc c..<8] (wstep L L c c p, Suc c)) = 8)
        = (winvert [Suc c..<8] (wstep L L c c p, wstep L R c c p) \<noteq> None)"
      using Suc.prems c by (intro Suc.IH) simp_all
    with Some show ?thesis
      by (simp add: upt_8_Cons [OF c] wrankStep_Some)
  qed
qed

section \<open>Validity and inversion of a matrix\<close>

lemma unitColumns_identity:
  assumes "unitColumns 8 L" and "length L = 8"
  shows "L = identityRows"
proof (rule nth_equalityI)
  show "length L = length identityRows"
    using assms by (simp add: identityRows_def)
  fix i
  assume "i < length L"
  with assms have i: "i < 8" by simp
  have "L ! i = 2 ^ i"
  proof (rule bit_eqI)
    fix j
    assume "possible_bit TYPE(byte) j"
    then have "j < 8" by simp
    with assms(1) i show "bit (L ! i) j = bit (2 ^ i :: byte) j"
      by (auto simp add: unitColumns_def bit_exp_iff)
  qed
  with i show "L ! i = identityRows ! i"
    by (simp add: identityRows_def del: upt_Suc)
qed

lemma spansUnits_identity: "spansUnits identityRows"
  unfolding spansUnits_def
proof (intro allI impI)
  fix d :: nat
  assume "d < 8"
  then have "2 ^ d \<in> set identityRows"
    by (simp add: identityRows_def del: upt_Suc)
  then show "2 ^ d \<in> span (set identityRows)"
    by (rule span_base)
qed

lemma isMatrixValid_iff_invertible:
  assumes "length A = 8"
  shows "isMatrixValid A = (invertMatrix A \<noteq> None)"
  using wrank_winvert [of 0 8 A identityRows]
  by (simp add: isMatrixValid_wrank [OF assms] invertMatrix_winvert [OF assms] del: upt_Suc)

lemma invertMatrix_product:
  assumes "length A = 8" and "invertMatrix A = Some B"
  shows "length B = 8" and "\<And>i. i < 8 \<Longrightarrow> vecmat (B ! i) A = 2 ^ i" and "spansUnits B"
proof -
  from assms obtain L' where run: "winvert [0..<8] (A, identityRows) = Some (L', B)"
    by (auto simp add: invertMatrix_winvert simp del: upt_Suc)
  have init: "rowsProduct A A identityRows"
    by (simp add: rowsProduct_def identityRows_def vecmat_unit del: upt_Suc)
  have "length L' = 8 \<and> length B = 8 \<and> rowsProduct A L' B \<and> unitColumns 8 L'
    \<and> (spansUnits identityRows \<longrightarrow> spansUnits B)"
    using _ _ assms(1) _ init _ run
    by (rule winvert_result [where c = 0 and n = 8])
      (simp_all add: identityRows_def unitColumns_def del: upt_Suc)
  then have len: "length L' = 8" "length B = 8" and prod: "rowsProduct A L' B"
    and unit: "unitColumns 8 L'" and sp: "spansUnits B"
    by (simp_all add: spansUnits_identity)
  show "length B = 8" by fact
  show "spansUnits B" by fact
  fix i :: nat
  assume i: "i < 8"
  have "L' = identityRows"
    using unit len(1) by (rule unitColumns_identity)
  with prod i show "vecmat (B ! i) A = 2 ^ i"
    by (simp add: rowsProduct_def identityRows_def del: upt_Suc)
qed

lemma invertMatrix_succeeds:
  assumes "length B = 8" and "spansUnits B"
  shows "invertMatrix B \<noteq> None"
proof -
  have "winvert [0..<8] (B, identityRows) \<noteq> None"
    using _ _ assms(1) _ assms(2)
    by (rule winvert_succeeds [where c = 0 and n = 8]) (simp_all add: unitColumns_def)
  then show ?thesis
    by (simp add: invertMatrix_winvert [OF assms(1)] del: upt_Suc)
qed

lemma invertMatrix_twice:
  assumes "length A = 8" and "invertMatrix A = Some B"
  shows "invertMatrix B = Some A"
proof -
  note B = invertMatrix_product [OF assms]
  from invertMatrix_succeeds [OF B(1) B(3)] obtain C where C: "invertMatrix B = Some C"
    by auto
  note CC = invertMatrix_product [OF B(1) C]
  have ident: "map (\<lambda>s. vecmat s A) B = identityRows"
    by (rule nth_equalityI) (simp_all add: B identityRows_def del: upt_Suc)
  have "C = A"
  proof (rule nth_equalityI)
    show "length C = length A"
      using CC(1) assms(1) by simp
    fix i
    assume "i < length C"
    with CC(1) have i: "i < 8" by simp
    have "C ! i = vecmat (C ! i) (map (\<lambda>s. vecmat s A) B)"
      by (simp add: ident vecmat_identity)
    also have "\<dots> = vecmat (vecmat (C ! i) B) A"
      using B(1) by (rule vecmat_assoc)
    also have "\<dots> = A ! i"
      using i by (simp add: CC(2) vecmat_unit)
    finally show "C ! i = A ! i" .
  qed
  with C show ?thesis
    by simp
qed

lemma affineProduct_inverse:
  assumes "length A = 8" and "invertMatrix A = Some B"
  shows "affineProduct (affineProduct x A) B = x"
proof -
  note B = invertMatrix_product [OF assms]
  have ident: "map (\<lambda>s. vecmat s A) B = identityRows"
    by (rule nth_equalityI) (simp_all add: B identityRows_def del: upt_Suc)
  have "affineProduct (affineProduct x A) B = affineProduct x (map (\<lambda>s. vecmat s A) B)"
    using B(1) by (rule affineProduct_vecmat [symmetric])
  then show ?thesis
    by (simp add: ident affineProduct_identity)
qed

section \<open>The inverse table of an injective S-box\<close>

lemma generateInverseSBox_prefix:
  fixes sbox :: "byte list"
  assumes "n \<le> 256" and "\<And>i j. i < n \<Longrightarrow> j < n \<Longrightarrow> sbox ! i = sbox ! j \<Longrightarrow> i = j"
  shows "length (fold (\<lambda>i inv. inv[unat (sbox ! i) := Some (word_of_nat i :: byte)]) [0..<n]
                  (replicate 256 None)) = 256
    \<and> (\<forall>i < n. fold (\<lambda>i inv. inv[unat (sbox ! i) := Some (word_of_nat i :: byte)]) [0..<n]
                  (replicate 256 None) ! unat (sbox ! i) = Some (word_of_nat i))"
  using assms
proof (induction n)
  case 0
  then show ?case by simp
next
  case (Suc n)
  define inv where "inv = fold (\<lambda>i inv. inv[unat (sbox ! i) := Some (word_of_nat i :: byte)]) [0..<n]
                  (replicate 256 None)"
  have IH: "length inv = 256" "\<And>i. i < n \<Longrightarrow> inv ! unat (sbox ! i) = Some (word_of_nat i)"
    using Suc.IH Suc.prems by (simp_all add: inv_def)
  have step: "fold (\<lambda>i inv. inv[unat (sbox ! i) := Some (word_of_nat i :: byte)]) [0..<Suc n]
                  (replicate 256 None) = inv[unat (sbox ! n) := Some (word_of_nat n)]"
    by (simp add: inv_def)
  have "inv[unat (sbox ! n) := Some (word_of_nat n)] ! unat (sbox ! i) = Some (word_of_nat i)"
    if "i < Suc n" for i
  proof (cases "i = n")
    case True
    then show ?thesis
      using IH(1) unat_byte_less [of "sbox ! n"] by simp
  next
    case False
    with that have i: "i < n" by simp
    with Suc.prems(2) [of i n] False have "sbox ! i \<noteq> sbox ! n"
      by auto
    then have "unat (sbox ! i) \<noteq> unat (sbox ! n)"
      by (simp add: word_unat_eq_iff)
    then show ?thesis
      using IH(2) [OF i] by simp
  qed
  then show ?case
    unfolding step using IH(1) by simp
qed

lemma generateInverseSBox_correct:
  fixes sbox :: "byte list"
  assumes "\<And>i j. i < 256 \<Longrightarrow> j < 256 \<Longrightarrow> sbox ! i = sbox ! j \<Longrightarrow> i = j" and "i < 256"
  shows "generateInverseSBox sbox ! unat (sbox ! i) = Some (word_of_nat i)"
  using generateInverseSBox_prefix [of 256 sbox] assms by (simp add: generateInverseSBox_def)

lemma length_generateInverseSBox:
  fixes sbox :: "byte list"
  assumes "\<And>i j. i < 256 \<Longrightarrow> j < 256 \<Longrightarrow> sbox ! i = sbox ! j \<Longrightarrow> i = j"
  shows "length (generateInverseSBox sbox) = 256"
  using generateInverseSBox_prefix [of 256 sbox] assms by (simp add: generateInverseSBox_def)

text \<open>The inverse table is an involution, hence injective.\<close>

lemma inverse_table_involution:
  "list_all2 (\<lambda>x y. INVERSE_TABLE ! unat y = x) all_bytes INVERSE_TABLE"
  unfolding all_bytes_def by (simp add: upt_rec INVERSE_TABLE_def)

lemma INVERSE_TABLE_twice: "INVERSE_TABLE ! unat (INVERSE_TABLE ! unat x) = x"
  by (rule bytes_table_all [OF inverse_table_involution])

lemma INVERSE_TABLE_inj:
  assumes "i < 256" and "j < 256" and "INVERSE_TABLE ! i = INVERSE_TABLE ! j"
  shows "i = j"
proof -
  have ui: "unat (word_of_nat i :: byte) = i" and uj: "unat (word_of_nat j :: byte) = j"
    using assms by (simp_all add: unat_of_nat)
  have "(word_of_nat i :: byte) = INVERSE_TABLE ! unat (INVERSE_TABLE ! i)"
    using INVERSE_TABLE_twice [of "word_of_nat i"] by (simp only: ui)
  also have "\<dots> = INVERSE_TABLE ! unat (INVERSE_TABLE ! j)"
    by (simp only: assms(3))
  also have "\<dots> = word_of_nat j"
    using INVERSE_TABLE_twice [of "word_of_nat j"] by (simp only: uj)
  finally have "unat (word_of_nat i :: byte) = unat (word_of_nat j :: byte)"
    by (rule arg_cong)
  then show ?thesis
    by (simp only: ui uj)
qed

lemma xor_right_inj: "a XOR c = b XOR c \<Longrightarrow> a = b" for a b c :: byte
proof -
  assume "a XOR c = b XOR c"
  then have "(a XOR c) XOR c = (b XOR c) XOR c"
    by (rule arg_cong)
  then show "a = b"
    by (simp add: xor.assoc)
qed

lemma generateSBox_inj:
  assumes "isMatrixValid M" and "length M = 8" and "i < 256" and "j < 256"
    and "generateSBox M C ! i = generateSBox M C ! j"
  shows "i = j"
proof -
  from assms(1,2) obtain B where B: "invertMatrix M = Some B"
    by (auto simp add: isMatrixValid_iff_invertible)
  from assms(3-5) have "affineProduct (INVERSE_TABLE ! i) M XOR C
      = affineProduct (INVERSE_TABLE ! j) M XOR C"
    by (simp add: generateSBox_nth applyAffine_def)
  then have "affineProduct (INVERSE_TABLE ! i) M = affineProduct (INVERSE_TABLE ! j) M"
    by (rule xor_right_inj)
  then have "affineProduct (affineProduct (INVERSE_TABLE ! i) M) B
      = affineProduct (affineProduct (INVERSE_TABLE ! j) M) B"
    by simp
  then have "INVERSE_TABLE ! i = INVERSE_TABLE ! j"
    by (simp add: affineProduct_inverse [OF assms(2) B])
  with assms(3,4) show ?thesis
    by (rule INVERSE_TABLE_inj)
qed

lemma isMatrixValid_K44: "isMatrixValid K44_MATRIX"
  by (simp add: isMatrixValid_wrank K44_MATRIX_def upt_rec wrankStep_def wfind_def wstep_def
      welim_def wswap_def)

section \<open>One block: decryption undoes encryption\<close>

lemma length_stateToBytes: "length (stateToBytes st) = 16"
  by (simp add: stateToBytes_def)

lemma length_encryptBlock: "length (encryptBlock block key sbox) = 16"
  by (simp add: encryptBlock_def Let_def length_stateToBytes)

lemma length_decryptBlock: "length (decryptBlock block key sbox) = 16"
  by (simp add: decryptBlock_def Let_def length_stateToBytes)

lemma wf_encryptRound: "wf_state (encryptRound sbox rks r st)"
  by (simp add: encryptRound_def wf_addRoundKey)

lemma decryptRound_encryptRound:
  assumes "wf_state st" and "\<And>x. invSbox ! unat (sbox ! unat x) = x"
  shows "decryptRound invSbox rks r (encryptRound sbox rks r st) = st"
proof -
  have a: "wf_state (subBytes st sbox)"
    by (rule wf_subBytes)
  then have b: "wf_state (shiftRows (subBytes st sbox))"
    by (rule wf_shiftRows)
  have c: "wf_state (mixColumns (shiftRows (subBytes st sbox)))"
    by (rule wf_mixColumns)
  show ?thesis
    unfolding decryptRound_def encryptRound_def
    by (simp only: addRoundKey_twice [OF c] invMixColumns_mixColumns [OF b]
        invShiftRows_shiftRows [OF a] invSubBytes_subBytes [OF assms])
qed

lemma fold_rounds_inverse:
  assumes "wf_state st" and "\<And>x. invSbox ! unat (sbox ! unat x) = x"
  shows "fold (decryptRound invSbox rks) (rev rs) (fold (encryptRound sbox rks) rs st) = st"
  using assms(1)
proof (induction rs arbitrary: st)
  case Nil
  then show ?case by simp
next
  case (Cons r rs)
  have "wf_state (encryptRound sbox rks r st)"
    by (rule wf_encryptRound)
  then have "fold (decryptRound invSbox rks) (rev rs)
      (fold (encryptRound sbox rks) rs (encryptRound sbox rks r st)) = encryptRound sbox rks r st"
    by (rule Cons.IH)
  then show ?case
    by (simp add: decryptRound_encryptRound [OF Cons.prems assms(2)])
qed

lemma wf_fold_encryptRound:
  "wf_state st \<Longrightarrow> wf_state (fold (encryptRound sbox rks) rs st)"
  by (induction rs arbitrary: st) (simp_all add: wf_encryptRound)

lemma decryptBlock_encryptBlock:
  assumes "length block = 16"
    and "\<And>x. map slotValue (generateInverseSBox sbox) ! unat (sbox ! unat x) = x"
  shows "decryptBlock (encryptBlock block key sbox) key sbox = block"
proof -
  define rks where "rks = keyExpansion key sbox"
  define invSbox where "invSbox = map slotValue (generateInverseSBox sbox)"
  define s0 where "s0 = addRoundKey (bytesToState block) (rks ! 0)"
  define s9 where "s9 = fold (encryptRound sbox rks) [1..<10] s0"
  define s10 where "s10 = addRoundKey (shiftRows (subBytes s9 sbox)) (rks ! 10)"
  have inv: "\<And>x. invSbox ! unat (sbox ! unat x) = x"
    unfolding invSbox_def by (rule assms(2))
  have w0: "wf_state s0"
    unfolding s0_def by (rule wf_addRoundKey)
  then have w9: "wf_state s9"
    unfolding s9_def by (rule wf_fold_encryptRound)
  have wa: "wf_state (subBytes s9 sbox)"
    by (rule wf_subBytes)
  then have wb: "wf_state (shiftRows (subBytes s9 sbox))"
    by (rule wf_shiftRows)
  have w10: "wf_state s10"
    unfolding s10_def by (rule wf_addRoundKey)
  have enc: "encryptBlock block key sbox = stateToBytes s10"
    by (simp add: encryptBlock_def Let_def rks_def s0_def s9_def s10_def)
  have "addRoundKey s10 (rks ! 10) = shiftRows (subBytes s9 sbox)"
    unfolding s10_def by (rule addRoundKey_twice [OF wb])
  then have t10: "invSubBytes (invShiftRows (addRoundKey s10 (rks ! 10))) invSbox = s9"
    by (simp only: invShiftRows_shiftRows [OF wa] invSubBytes_subBytes [OF w9 inv])
  have t1: "fold (decryptRound invSbox rks) (rev [1..<10]) s9 = s0"
    unfolding s9_def by (rule fold_rounds_inverse [OF w0 inv])
  have t0: "addRoundKey s0 (rks ! 0) = bytesToState block"
    unfolding s0_def by (rule addRoundKey_twice [OF wf_bytesToState])
  have "decryptBlock (stateToBytes s10) key sbox
      = stateToBytes (addRoundKey (fold (decryptRound invSbox rks) (rev [1..<10])
          (invSubBytes (invShiftRows (addRoundKey s10 (rks ! 10))) invSbox)) (rks ! 0))"
    by (simp add: decryptBlock_def Let_def rks_def invSbox_def bytesToState_stateToBytes [OF w10]
        del: upt_Suc)
  also have "\<dots> = block"
    by (simp only: t10 t1 t0 stateToBytes_bytesToState [OF assms(1)])
  finally show ?thesis
    by (simp only: enc)
qed

section \<open>The block loop\<close>

lemma ecbBlocks_blocks:
  assumes "length data = 16 * n" and "length result = 16 * n" and "\<And>b. length (f b) = 16"
    and "n - m = d" and "m \<le> n"
  shows "ecbBlocks f data (16 * m) result
     = Inr (take (16 * m) result @ concat (map (\<lambda>k. f (take 16 (drop (16 * k) data))) [m..<n]))"
  using assms(2,4,5)
proof (induction d arbitrary: m result)
  case 0
  then have "m = n" by simp
  then show ?case
    using assms(1) 0 by (subst ecbBlocks.simps) simp
next
  case (Suc d)
  then have m: "m < n" by simp
  let ?out = "f (take 16 (drop (16 * m) data))"
  let ?res = "take (16 * m) result @ ?out @ drop (16 * m + 16) result"
  have lo: "length ?out = 16"
    by (rule assms(3))
  have lr: "length ?res = 16 * n"
    using Suc.prems(1) m lo by simp
  have e: "16 * m + 16 = 16 * Suc m"
    by simp
  have "ecbBlocks f data (16 * m) result = ecbBlocks f data (16 * m + 16) ?res"
    using assms(1) Suc.prems(1) m lo by (subst ecbBlocks.simps) (simp add: Let_def)
  then have "ecbBlocks f data (16 * m) result = ecbBlocks f data (16 * Suc m) ?res"
    by (simp only: e)
  also have "\<dots> = Inr (take (16 * Suc m) ?res
      @ concat (map (\<lambda>k. f (take 16 (drop (16 * k) data))) [Suc m..<n]))"
    using lr _ _ by (rule Suc.IH) (use Suc.prems m in simp_all)
  also have "take (16 * Suc m) ?res = take (16 * m) result @ ?out"
    using Suc.prems(1) m lo by simp
  finally show ?case
    using m by (simp add: upt_conv_Cons)
qed





section \<open>Claim C6\<close>

lemma invertMatrix_K44:
  "invertMatrix K44_MATRIX = Some [87, 171, 213, 234, 117, 186, 93, 174]"
  by (simp add: invertMatrix_winvert K44_MATRIX_def identityRows_def upt_rec wfind_def wstep_def
      welim_def wswap_def)

lemma invertMatrix_singular: "invertMatrix [1, 2, 3, 4, 5, 6, 7, 8] = None"
  by (simp add: invertMatrix_winvert identityRows_def upt_rec wfind_def wstep_def
      welim_def wswap_def)

text \<open>
  C6. For every matrix \<open>M\<close> of 8 bytes, \<open>isMatrixValid M\<close> holds exactly when
  \<open>invertMatrix M\<close> returns a matrix, and whenever \<open>invertMatrix M\<close> returns a matrix
  \<open>B\<close>, \<open>invertMatrix B\<close> returns \<open>M\<close>.
\<close>

theorem isMatrixValid_iff_invertMatrix:
  assumes "length M = 8"
  shows "(isMatrixValid M \<longleftrightarrow> (\<exists>B. invertMatrix M = Some B))
    \<and> (\<forall>B. invertMatrix M = Some B \<longrightarrow> invertMatrix B = Some M)"
proof -
  have "isMatrixValid M \<longleftrightarrow> (\<exists>B. invertMatrix M = Some B)"
    using isMatrixValid_iff_invertible [OF assms] by simp
  moreover have "invertMatrix B = Some M" if "invertMatrix M = Some B" for B
    using assms that by (rule invertMatrix_twice)
  ultimately show ?thesis
    by blast
qed

theorem isMatrixValid_iff_invertMatrix_witness:
  "length K44_MATRIX = 8
   \<and> isMatrixValid K44_MATRIX
   \<and> invertMatrix K44_MATRIX = Some [87, 171, 213, 234, 117, 186, 93, 174]
   \<and> invertMatrix [87, 171, 213, 234, 117, 186, 93, 174] = Some K44_MATRIX
   \<and> length [1, 2, 3, 4, 5, 6, 7, 8 :: byte] = 8
   \<and> invertMatrix [1, 2, 3, 4, 5, 6, 7, 8] = None
   \<and> \<not> isMatrixValid [1, 2, 3, 4, 5, 6, 7, 8]"
proof -
  have len: "length K44_MATRIX = 8"
    by (simp add: K44_MATRIX_def)
  have len': "length [1, 2, 3, 4, 5, 6, 7, 8 :: byte] = 8"
    by simp
  note a = isMatrixValid_iff_invertMatrix [OF len]
  note b = isMatrixValid_iff_invertMatrix [OF len']
  from a have "isMatrixValid K44_MATRIX"
    by (simp add: invertMatrix_K44)
  moreover from a have "invertMatrix [87, 171, 213, 234, 117, 186, 93, 174] = Some K44_MATRIX"
    by (simp add: invertMatrix_K44)
  moreover from b have "\<not> isMatrixValid [1, 2, 3, 4, 5, 6, 7, 8]"
    by (simp add: invertMatrix_singular)
  ultimately show ?thesis
    using len invertMatrix_K44 invertMatrix_singular by simp
qed

section \<open>Claim C7\<close>

lemma length_generateSBox: "length (generateSBox M C) = 256"
  by (simp add: generateSBox_def)

lemma generateInverseSBox_generateSBox_nth:
  assumes "isMatrixValid M" and "length M = 8"
  shows "generateInverseSBox (generateSBox M C) ! unat (generateSBox M C ! unat x) = Some x"
proof -
  have inj: "i = j" if "i < 256" "j < 256" "generateSBox M C ! i = generateSBox M C ! j" for i j
    using assms that by (rule generateSBox_inj)
  have "generateInverseSBox (generateSBox M C) ! unat (generateSBox M C ! unat x)
      = Some (word_of_nat (unat x))"
    using inj unat_byte_less [of x] by (rule generateInverseSBox_correct)
  then show ?thesis
    by simp
qed

text \<open>
  C7. For every invertible matrix \<open>M\<close> of 8 bytes, every constant byte \<open>C\<close> and every
  byte \<open>x\<close>, the entry of \<open>generateInverseSBox (generateSBox M C)\<close> at index
  \<open>generateSBox M C ! x\<close> is \<open>x\<close>.
\<close>

theorem generateInverseSBox_generateSBox:
  assumes "isMatrixValid M" and "length M = 8"
  shows "generateInverseSBox (generateSBox M C) ! unat (generateSBox M C ! unat x) = Some x"
  using assms by (rule generateInverseSBox_generateSBox_nth)

theorem generateInverseSBox_generateSBox_witness:
  "isMatrixValid K44_MATRIX \<and> length K44_MATRIX = 8
   \<and> generateSBox K44_MATRIX 0x63 ! 2 = 0xA5
   \<and> generateInverseSBox (generateSBox K44_MATRIX 0x63) ! 0xA5 = Some 2"
proof -
  have len: "length K44_MATRIX = 8"
    by (simp add: K44_MATRIX_def)
  have k2: "generateSBox K44_MATRIX 0x63 ! 2 = 0xA5"
    by (simp add: generateSBox_nth inverse_table_head affine_eval K44_MATRIX_def)
  from generateInverseSBox_generateSBox [OF isMatrixValid_K44 len, where C = "0x63" and x = 2]
  have "generateInverseSBox (generateSBox K44_MATRIX 0x63) ! 0xA5 = Some 2"
    by (simp add: k2)
  with isMatrixValid_K44 len k2 show ?thesis
    by simp
qed

section \<open>Padding and the block loop together\<close>





lemma ecbBlocks_all:
  assumes "length data = 16 * n" and "\<And>b. length (f b) = 16"
  shows "ecbBlocks f data 0 (replicate (length data) 0)
     = Inr (concat (map (\<lambda>k. f (take 16 (drop (16 * k) data))) [0..<n]))"
proof -
  have "length (replicate (length data) (0 :: byte)) = 16 * n"
    using assms(1) by simp
  from ecbBlocks_blocks [OF assms(1) this assms(2), of 0 n]
  show ?thesis
    by simp
qed


lemma slotValue_generateSBox:
  assumes "isMatrixValid M" and "length M = 8"
  shows "map slotValue (generateInverseSBox (generateSBox M C)) ! unat (generateSBox M C ! unat x) = x"
proof -
  have inj: "i = j" if "i < 256" "j < 256" "generateSBox M C ! i = generateSBox M C ! j" for i j
    using assms that by (rule generateSBox_inj)
  have "length (generateInverseSBox (generateSBox M C)) = 256"
    using inj by (rule length_generateInverseSBox)
  then have "unat (generateSBox M C ! unat x) < length (generateInverseSBox (generateSBox M C))"
    using unat_byte_less [of "generateSBox M C ! unat x"] by simp
  then show ?thesis
    by (simp add: generateInverseSBox_generateSBox_nth [OF assms] slotValue_def)
qed


section \<open>Claim C1\<close>




section \<open>Claim C3\<close>

lemma decrypt_violation:
  assumes "ecbBlocks (\<lambda>block. decryptBlock block (encode (canonicalKey keyStr)) sbox) cipherBytes 0
             (replicate (length cipherBytes) 0) = Inr result"
    and "result \<noteq> []" and "last result = 0 \<or> length result < unat (last result)"
  shows "\<exists>e. decrypt encode decode cipherBytes keyStr sbox = Inl (InvalidPadding e)"
proof -
  from assms(3) have "paddingViolation result"
    by (auto simp add: paddingViolation_def word_less_1)
  then obtain e where "pkcs7Unpad result = Inl (InvalidPadding e)"
    using pkcs7Unpad_violation by blast
  then show ?thesis
    using assms(1) by (simp add: decrypt_def)
qed

lemma pkcs7Unpad_fails:
  "(\<exists>e. pkcs7Unpad data = Inl (InvalidPadding e)) \<longleftrightarrow> paddingViolation data"
proof
  assume "\<exists>e. pkcs7Unpad data = Inl (InvalidPadding e)"
  then show "paddingViolation data"
    using pkcs7Unpad_ok [of data] by (cases "paddingViolation data") auto
next
  assume "paddingViolation data"
  then show "\<exists>e. pkcs7Unpad data = Inl (InvalidPadding e)"
    by (rule pkcs7Unpad_violation)
qed

text \<open>
  C3. \<open>pkcs7Unpad\<close> fails with a padding error exactly when the data is empty, or its
  last byte is below 1 or above 16, or its last byte exceeds the length of the data, or one
  of the trailing bytes counted by the last byte differs from it; otherwise it returns the
  data without these trailing bytes. When the blocks that \<open>decrypt\<close> has decrypted end
  in a byte that is 0 or exceeds their length, \<open>decrypt\<close> fails with a padding error.
\<close>

theorem pkcs7Unpad_fails_iff:
  "((\<exists>e. pkcs7Unpad data = Inl (InvalidPadding e)) \<longleftrightarrow> paddingViolation data)
   \<and> (\<not> paddingViolation data \<longrightarrow>
        pkcs7Unpad data = Inr (take (length data - unat (last data)) data))
   \<and> (ecbBlocks (\<lambda>block. decryptBlock block (encode (canonicalKey keyStr)) sbox) cipherBytes 0
         (replicate (length cipherBytes) 0) = Inr result
       \<and> result \<noteq> [] \<and> (last result = 0 \<or> length result < unat (last result))
      \<longrightarrow> (\<exists>e. decrypt encode decode cipherBytes keyStr sbox = Inl (InvalidPadding e)))"
  using pkcs7Unpad_fails [of data] pkcs7Unpad_ok [of data]
    decrypt_violation [of encode keyStr sbox cipherBytes result decode]
  by blast

theorem pkcs7Unpad_fails_iff_witness:
  "paddingViolation [1, 2, 3, 0]
   \<and> pkcs7Unpad [1, 2, 3, 0] = Inl (InvalidPadding (PadLengthOutOfRange 0))
   \<and> \<not> paddingViolation [7, 2, 2]
   \<and> pkcs7Unpad [7, 2, 2] = Inr [7]
   \<and> ecbBlocks (\<lambda>block. decryptBlock block
          (map (\<lambda>c. word_of_nat (of_char c)) (canonicalKey ''secret'')) (generateSBox K44_MATRIX 0x63))
        (encryptBlock (replicate 16 0) (map (\<lambda>c. word_of_nat (of_char c)) (canonicalKey ''secret''))
           (generateSBox K44_MATRIX 0x63)) 0
        (replicate (length (encryptBlock (replicate 16 0)
           (map (\<lambda>c. word_of_nat (of_char c)) (canonicalKey ''secret''))
           (generateSBox K44_MATRIX 0x63))) 0) = Inr (replicate 16 0)
   \<and> last (replicate 16 (0 :: byte)) = 0
   \<and> (\<exists>e. decrypt (map (\<lambda>c. word_of_nat (of_char c))) (map (\<lambda>b. char_of (unat b)))
          (encryptBlock (replicate 16 0) (map (\<lambda>c. word_of_nat (of_char c)) (canonicalKey ''secret''))
             (generateSBox K44_MATRIX 0x63))
          ''secret'' (generateSBox K44_MATRIX 0x63) = Inl (InvalidPadding e))"
proof -
  let ?enc = "map (\<lambda>c. word_of_nat (of_char c) :: byte)"
  let ?dec = "map (\<lambda>b :: byte. char_of (unat b))"
  define key where "key = ?enc (canonicalKey ''secret'')"
  define sbox where "sbox = generateSBox K44_MATRIX 0x63"
  define ct where "ct = encryptBlock (replicate 16 0) key sbox"
  have len: "length K44_MATRIX = 8"
    by (simp add: K44_MATRIX_def)
  have v1: "paddingViolation [1, 2, 3, 0]"
    by (simp add: paddingViolation_def)
  have v2: "\<not> paddingViolation [7, 2, 2]"
    by (auto simp add: paddingViolation_def less_Suc_eq)
  note t1 = pkcs7Unpad_fails_iff [where data = "[1, 2, 3, 0]"]
  have u1: "pkcs7Unpad [1, 2, 3, 0] = Inl (InvalidPadding (PadLengthOutOfRange 0))"
    by (simp add: pkcs7Unpad_def)
  note t2 = pkcs7Unpad_fails_iff [where data = "[7, 2, 2]"]
  from t2 v2 have "pkcs7Unpad [7, 2, 2] = Inr (take (length [7, 2, 2 :: byte] - unat (last [7, 2, 2 :: byte])) [7, 2, 2])"
    by blast
  then have u2: "pkcs7Unpad [7, 2, 2] = Inr [7]"
    by simp
  have lct: "length ct = 16 * 1"
    by (simp add: ct_def length_encryptBlock)
  have "decryptBlock ct key sbox = replicate 16 0"
    unfolding ct_def sbox_def
    by (rule decryptBlock_encryptBlock) (simp_all add: slotValue_generateSBox [OF isMatrixValid_K44 len])
  then have run: "ecbBlocks (\<lambda>block. decryptBlock block key sbox) ct 0 (replicate (length ct) 0)
      = Inr (replicate 16 0)"
    using ecbBlocks_all [OF lct, of "\<lambda>block. decryptBlock block key sbox"] lct
    by (simp add: length_decryptBlock)
  have l0: "last (replicate 16 (0 :: byte)) = 0"
    by simp
  note t3 = pkcs7Unpad_fails_iff [where encode = ?enc and decode = ?dec and keyStr = "''secret''"
      and sbox = sbox and cipherBytes = ct and result = "replicate 16 0"]
  from t3 run l0 have "\<exists>e. decrypt ?enc ?dec ct ''secret'' sbox = Inl (InvalidPadding e)"
    unfolding key_def by simp
  with v1 u1 v2 u2 run l0 show ?thesis
    unfolding ct_def key_def sbox_def by (intro conjI)
qed

end
